theory Spec2Isabelle
  imports Main "HOL-Library.Sublist"
begin

section \<open>The task queue of src/src/index.ts\<close>

text \<open>
  The queue is a closure over five variables (\<open>lastId\<close>, \<open>waitingJobs\<close>,
  \<open>inProgressJobs\<close>, \<open>timeouts\<close>, \<open>processing\<close>) and lives on the JavaScript
  runtime: promises, timers and an event emitter. The embedding keeps the five
  variables under their names and writes the runtime out as further fields of the state:
  the state of each promise, the queue of pending promise reactions, the reactions
  registered on the promises of running bodies, the clock, and what was emitted.
  Every function of the source is a function on that state; a function that can throw
  returns the value thrown beside the state reached, since a JavaScript exception leaves
  the assignments made before it in place.
\<close>

subsection \<open>Values, errors, jobs\<close>

type_synonym js_value = string

text \<open>The four error classes of the source, and any other value a promise is rejected with.\<close>

datatype error =
    JobCancelled
  | QueueTimeout nat
  | QueueFull nat nat
  | JobTimeout
  | Raised js_value

datatype outcome = Resolved js_value | Rejected error

text \<open>
  What calling \<open>job.fn()\<close> does at once: it throws, or it returns a promise (whose
  settlement is an event of its own, \<open>BodyDone\<close> below).
\<close>

datatype body = Throws js_value | ReturnsPromise

text \<open>
  What calling the caller's \<open>onCancel\<close> does: it returns, or it throws.
\<close>

datatype hook = HookReturns | HookThrows js_value

text \<open>
  interface Job. \<open>onCancel\<close> is the second argument of \<open>add\<close>, which the closure
  \<open>job.cancel\<close> keeps (\<open>None\<close> when it was not given: \<open>job.cancel\<close> runs
  \<open>onCancel && onCancel()\<close>). \<open>startedProcessingAt\<close> is the one field assigned after
  the object is built; the closures of timers, reactions and handles share the object,
  so the field is kept in the state, keyed by the job's id.
\<close>

record job =
  fn :: body
  onCancel :: "hook option"
  jobId :: nat
  addedToTheQueueAt :: nat

text \<open>
  The options of \<open>Queue\<close>: two delays in milliseconds and two numbers of jobs, taken
  as natural numbers (the source does not validate them). The delays decide when a timer
  fires; the model lets an armed timer fire at any moment, so every timing is covered.
\<close>

record config =
  queueTimeout :: nat
  executionTimeout :: nat
  concurrency :: nat
  maxTaskCount :: nat

definition defaultConfig :: config where
  "defaultConfig = \<lparr>queueTimeout = 500, executionTimeout = 250, concurrency = 1, maxTaskCount = 1\<rparr>"

subsection \<open>Notifications\<close>

text \<open>The eight topics of \<open>events.emit\<close>, each with its payload in the source's order.\<close>

datatype notification =
    queue_new nat nat nat
  | queue_timeout nat nat
  | queue_full nat nat
  | job_started nat nat
  | job_success nat nat "nat option"
  | job_timeout nat nat "nat option"
  | job_cancel nat nat
  | job_failure nat nat "nat option" js_value

text \<open>
  Node's \<open>EventEmitter.emit\<close> calls the listeners of the topic in the order they were
  registered, synchronously; when one throws, \<open>emit\<close> throws that value and the
  listeners after it are not called. The listeners are a parameter: for a notification,
  what each registered listener does with it (\<open>None\<close>: it returns, \<open>Some v\<close>: it throws
  \<open>v\<close>). \<open>first_throw\<close> is what \<open>emit\<close> throws, \<open>called\<close> the number of listeners
  it has called by then.
\<close>

type_synonym subscribers = "notification \<Rightarrow> js_value option list"

fun first_throw :: "js_value option list \<Rightarrow> js_value option" where
  "first_throw [] = None"
| "first_throw (None # rs) = first_throw rs"
| "first_throw (Some v # rs) = Some v"

fun called :: "js_value option list \<Rightarrow> nat" where
  "called [] = 0"
| "called (None # rs) = Suc (called rs)"
| "called (Some v # rs) = 1"

definition thrown :: "subscribers \<Rightarrow> notification \<Rightarrow> js_value option" where
  "thrown L n = first_throw (L n)"

definition quiet :: "subscribers \<Rightarrow> bool" where
  "quiet L \<longleftrightarrow> (\<forall>n. thrown L n = None)"

subsection \<open>The state\<close>

datatype timer_kind = QueueWait | Execution

text \<open>
  A timer made by \<open>setTimeout\<close>: which callback it runs, whether it can still fire (it
  has neither fired nor been cleared), and the job its callback closes over.
\<close>

datatype timer = Timer (kind: timer_kind) (armed: bool) (target: job)

record state =
  lastId :: nat
  waitingJobs :: "job list"
  inProgressJobs :: "job list"
  timeouts :: "nat \<rightharpoonup> timer"
  processing :: bool
  startedProcessingAt :: "nat \<rightharpoonup> nat"
  promise :: "nat \<rightharpoonup> outcome"
  handle :: "nat \<rightharpoonup> outcome"
  reactions :: "(job \<times> outcome) list"
  running :: "nat \<rightharpoonup> job"
  issued :: "nat \<rightharpoonup> job"
  clock :: nat
  emitted :: "notification list"
  delivered :: "nat list"
  hookCalls :: "nat list"

text \<open>
  \<open>promise s i\<close> is the promise built by \<open>new Promise\<close> in \<open>add\<close> for job \<open>i\<close>;
  \<open>handle s i\<close> is the promise \<open>add\<close> returns, which is that one's \<open>.finally(...)\<close>.
  \<open>reactions\<close> is the runtime's queue of the finally callbacks whose promise has
  settled, each with its job and the outcome it passes on. \<open>running s i\<close> is the job
  whose body returned a promise that has not settled yet, \<open>issued s i\<close> the job of the
  handle given to the caller of \<open>add\<close>. \<open>emitted\<close> lists the notifications in the
  order of the calls of \<open>events.emit\<close>, \<open>delivered\<close> the number of listeners each of
  these calls reached, \<open>hookCalls\<close> the jobs whose \<open>onCancel\<close> was called.
\<close>

definition Queue :: state where
  "Queue = \<lparr>lastId = 0, waitingJobs = [], inProgressJobs = [], timeouts = Map.empty,
     processing = False, startedProcessingAt = Map.empty, promise = Map.empty,
     handle = Map.empty, reactions = [], running = Map.empty, issued = Map.empty,
     clock = 0, emitted = [], delivered = [], hookCalls = []\<rparr>"

subsection \<open>The functions of the source\<close>

text \<open>
  \<open>events.emit\<close>: the notification goes out to the listeners, up to the first that
  throws; what \<open>emit\<close> then throws is \<open>thrown\<close>.
\<close>

definition notify :: "subscribers \<Rightarrow> notification \<Rightarrow> state \<Rightarrow> state" where
  "notify L n s = s\<lparr>emitted := emitted s @ [n], delivered := delivered s @ [called (L n)]\<rparr>"

definition removeTimeout :: "nat \<Rightarrow> state \<Rightarrow> state" where
  "removeTimeout i s =
     (if timeouts s i \<noteq> None then s\<lparr>timeouts := (timeouts s)(i := None)\<rparr> else s)"

text \<open>
  The resolving functions of a promise act once: the first call settles it and queues
  its finally callback, a later call does nothing.
\<close>

definition settle :: "job \<Rightarrow> outcome \<Rightarrow> state \<Rightarrow> state" where
  "settle j out s =
     (if promise s (jobId j) = None
      then s\<lparr>promise := (promise s)(jobId j \<mapsto> out), reactions := reactions s @ [(j, out)]\<rparr>
      else s)"

definition setUpQueueTimeout :: "job \<Rightarrow> state \<Rightarrow> state" where
  "setUpQueueTimeout j s = s\<lparr>timeouts := (timeouts s)(jobId j \<mapsto> Timer QueueWait True j)\<rparr>"

definition setUpProcessingTimeout :: "job \<Rightarrow> state \<Rightarrow> state" where
  "setUpProcessingTimeout j s = s\<lparr>timeouts := (timeouts s)(jobId j \<mapsto> Timer Execution True j)\<rparr>"

text \<open>\<open>findIndex\<close> and \<open>splice(i, 1)\<close>: the first entry with the id goes.\<close>

fun removeFirst :: "nat \<Rightarrow> job list \<Rightarrow> job list" where
  "removeFirst i [] = []"
| "removeFirst i (j # js) = (if jobId j = i then js else j # removeFirst i js)"

definition removeJob :: "job \<Rightarrow> state \<Rightarrow> state" where
  "removeJob j s =
     (if jobId j \<in> jobId ` set (waitingJobs s)
      then s\<lparr>waitingJobs := removeFirst (jobId j) (waitingJobs s)\<rparr>
      else if jobId j \<in> jobId ` set (inProgressJobs s)
      then s\<lparr>inProgressJobs := removeFirst (jobId j) (inProgressJobs s)\<rparr>
      else s)"

definition cleanup :: "job \<Rightarrow> state \<Rightarrow> state" where
  "cleanup j s = removeJob j (removeTimeout (jobId j) s)"

text \<open>
  \<open>job.cancel\<close>: the hook when there is one, then \<open>cleanup\<close>. A hook that throws
  leaves \<open>job.cancel\<close> before \<open>cleanup\<close>.
\<close>

definition jobCancel :: "job \<Rightarrow> state \<Rightarrow> js_value option \<times> state" where
  "jobCancel j s =
     (case onCancel j of
        None \<Rightarrow> (None, cleanup j s)
      | Some HookReturns \<Rightarrow> (None, cleanup j (s\<lparr>hookCalls := hookCalls s @ [jobId j]\<rparr>))
      | Some (HookThrows v) \<Rightarrow> (Some v, s\<lparr>hookCalls := hookCalls s @ [jobId j]\<rparr>))"

definition isFull :: "config \<Rightarrow> state \<Rightarrow> bool" where
  "isFull cfg s \<longleftrightarrow> maxTaskCount cfg \<le> length (waitingJobs s) + length (inProgressJobs s)"

text \<open>
  \<open>processJob\<close>: \<open>job.fn()\<close> throws, or returns a promise on which the two handlers
  are registered.
\<close>

definition processJob :: "job \<Rightarrow> state \<Rightarrow> js_value option \<times> state" where
  "processJob j s =
     (case fn j of
        Throws v \<Rightarrow> (Some v, s)
      | ReturnsPromise \<Rightarrow> (None, s\<lparr>running := (running s)(jobId j \<mapsto> j)\<rparr>))"

text \<open>The body of the \<open>try\<close> in \<open>processQueue\<close>.\<close>

definition startJob :: "subscribers \<Rightarrow> job \<Rightarrow> state \<Rightarrow> js_value option \<times> state" where
  "startJob L j s =
     (let s1 = s\<lparr>startedProcessingAt := (startedProcessingAt s)(jobId j \<mapsto> clock s)\<rparr>;
          n = job_started (jobId j) (addedToTheQueueAt j);
          s2 = notify L n s1
      in case thrown L n of
           Some v \<Rightarrow> (Some v, s2)
         | None \<Rightarrow> processJob j s2)"

text \<open>The \<open>catch\<close> of \<open>processQueue\<close> and the assignment after it.\<close>

definition startFailed :: "subscribers \<Rightarrow> job \<Rightarrow> js_value \<Rightarrow> state \<Rightarrow> js_value option \<times> state" where
  "startFailed L j err s =
     (let n = job_failure (jobId j) (addedToTheQueueAt j) (startedProcessingAt s (jobId j)) err;
          s1 = notify L n s
      in case thrown L n of
           Some v \<Rightarrow> (Some v, s1)
         | None \<Rightarrow> (None, (cleanup j (settle j (Rejected (Raised err)) s1))\<lparr>processing := False\<rparr>))"

definition processQueue :: "config \<Rightarrow> subscribers \<Rightarrow> state \<Rightarrow> js_value option \<times> state" where
  "processQueue cfg L s =
     (if concurrency cfg \<le> length (inProgressJobs s) \<or> processing s then (None, s)
      else case waitingJobs s of
        [] \<Rightarrow> (None, s)
      | j # rest \<Rightarrow>
          (let s1 = s\<lparr>waitingJobs := rest, processing := True\<rparr>;
               s2 = removeTimeout (jobId j) s1;
               s3 = s2\<lparr>inProgressJobs := inProgressJobs s2 @ [j]\<rparr>;
               s4 = setUpProcessingTimeout j s3
           in case startJob L j s4 of
                (None, s5) \<Rightarrow> (None, s5\<lparr>processing := False\<rparr>)
              | (Some err, s5) \<Rightarrow> startFailed L j err s5))"

text \<open>
  What \<open>add\<close> gives back: the cancellable promise of an admitted job, or the promise
  rejected with \<open>QueueFull\<close> whose \<open>cancel\<close> is the empty function; or \<open>add\<close> throws.
\<close>

datatype handle_ref = JobHandle job | RejectedHandle nat nat

datatype add_result = Returned handle_ref | Threw js_value

text \<open>
  The executor of \<open>new Promise\<close> in \<open>add\<close>. The constructor catches what the executor
  throws and rejects the promise with it.
\<close>

definition executor :: "config \<Rightarrow> subscribers \<Rightarrow> job \<Rightarrow> state \<Rightarrow> state" where
  "executor cfg L j s =
     (let s1 = setUpQueueTimeout j s;
          s2 = s1\<lparr>waitingJobs := waitingJobs s1 @ [j]\<rparr>;
          n = queue_new (jobId j) (length (inProgressJobs s2)) (length (waitingJobs s2));
          s3 = notify L n s2
      in case thrown L n of
           Some v \<Rightarrow> settle j (Rejected (Raised v)) s3
         | None \<Rightarrow>
             (case processQueue cfg L s3 of
                (None, s4) \<Rightarrow> s4
              | (Some v, s4) \<Rightarrow> settle j (Rejected (Raised v)) s4))"

definition add ::
  "config \<Rightarrow> subscribers \<Rightarrow> body \<Rightarrow> hook option \<Rightarrow> state \<Rightarrow> add_result \<times> state" where
  "add cfg L f hook s =
     (if isFull cfg s then
        (let waitingCount = length (waitingJobs s);
             inProgressCount = length (inProgressJobs s);
             n = queue_full waitingCount inProgressCount;
             s1 = notify L n s
         in case thrown L n of
              Some v \<Rightarrow> (Threw v, s1)
            | None \<Rightarrow> (Returned (RejectedHandle waitingCount inProgressCount), s1))
      else
        (let j = \<lparr>fn = f, onCancel = hook, jobId = lastId s, addedToTheQueueAt = clock s\<rparr>;
             s1 = s\<lparr>lastId := Suc (lastId s)\<rparr>;
             s2 = executor cfg L j s1
         in (Returned (JobHandle j), s2\<lparr>issued := (issued s2)(jobId j \<mapsto> j)\<rparr>)))"

text \<open>The \<open>cancel\<close> member of the promise \<open>add\<close> returned.\<close>

definition cancel :: "subscribers \<Rightarrow> handle_ref \<Rightarrow> state \<Rightarrow> js_value option \<times> state" where
  "cancel L h s =
     (case h of
        RejectedHandle w p \<Rightarrow> (None, s)
      | JobHandle j \<Rightarrow>
          (case jobCancel j s of
             (Some v, s1) \<Rightarrow> (Some v, s1)
           | (None, s1) \<Rightarrow>
               (let n = job_cancel (jobId j) (addedToTheQueueAt j);
                    s2 = notify L n s1
                in case thrown L n of
                     Some v \<Rightarrow> (Some v, s2)
                   | None \<Rightarrow> (None, settle j (Rejected JobCancelled) s2))))"

text \<open>The outcome of the promise behind a handle.\<close>

definition outcomeOf :: "state \<Rightarrow> handle_ref \<Rightarrow> outcome option" where
  "outcomeOf s h =
     (case h of
        RejectedHandle w p \<Rightarrow> Some (Rejected (QueueFull w p))
      | JobHandle j \<Rightarrow> handle s (jobId j))"

text \<open>The callbacks of the two timers.\<close>

definition queueTimeoutFired :: "subscribers \<Rightarrow> job \<Rightarrow> state \<Rightarrow> js_value option \<times> state" where
  "queueTimeoutFired L j s =
     (let n = queue_timeout (jobId j) (addedToTheQueueAt j);
          s1 = notify L n s
      in case thrown L n of
           Some v \<Rightarrow> (Some v, s1)
         | None \<Rightarrow> (None, settle j (Rejected (QueueTimeout (addedToTheQueueAt j)))
                            (removeTimeout (jobId j) s1)))"

definition processingTimeoutFired :: "subscribers \<Rightarrow> job \<Rightarrow> state \<Rightarrow> js_value option \<times> state" where
  "processingTimeoutFired L j s =
     (let n = job_timeout (jobId j) (addedToTheQueueAt j) (startedProcessingAt s (jobId j));
          s1 = notify L n s
      in case thrown L n of
           Some v \<Rightarrow> (Some v, s1)
         | None \<Rightarrow>
             (case jobCancel j s1 of
                (Some v, s2) \<Rightarrow> (Some v, s2)
              | (None, s2) \<Rightarrow> (None, settle j (Rejected JobTimeout) s2)))"

text \<open>The two handlers \<open>processJob\<close> registers with \<open>then\<close>.\<close>

datatype completion = Fulfils js_value | Rejects js_value

definition bodySettled :: "config \<Rightarrow> subscribers \<Rightarrow> job \<Rightarrow> completion \<Rightarrow> state \<Rightarrow> js_value option \<times> state" where
  "bodySettled cfg L j c s =
     (case c of
        Fulfils v \<Rightarrow>
          (let n = job_success (jobId j) (addedToTheQueueAt j) (startedProcessingAt s (jobId j));
               s1 = notify L n s
           in case thrown L n of
                Some e \<Rightarrow> (Some e, s1)
              | None \<Rightarrow> processQueue cfg L (settle j (Resolved v) (cleanup j s1)))
      | Rejects err \<Rightarrow>
          (let n = job_failure (jobId j) (addedToTheQueueAt j) (startedProcessingAt s (jobId j)) err;
               s1 = notify L n s
           in case thrown L n of
                Some e \<Rightarrow> (Some e, s1)
              | None \<Rightarrow> processQueue cfg L (settle j (Rejected (Raised err)) (cleanup j s1))))"

text \<open>
  The callback given to \<open>finally\<close>, and the settlement of the promise \<open>finally\<close>
  returned: with the outcome passed on, or rejected with what the callback threw. The
  runtime settles that promise only after the callback has returned; the model records
  the settlement at the callback's end, the earliest moment any observer of the handle
  could be told.
\<close>

definition runFinally :: "config \<Rightarrow> subscribers \<Rightarrow> job \<Rightarrow> outcome \<Rightarrow> state \<Rightarrow> state" where
  "runFinally cfg L j out s =
     (case processQueue cfg L (cleanup j s) of
        (None, s1) \<Rightarrow> s1\<lparr>handle := (handle s1)(jobId j \<mapsto> out)\<rparr>
      | (Some v, s1) \<Rightarrow> s1\<lparr>handle := (handle s1)(jobId j \<mapsto> Rejected (Raised v))\<rparr>)"

record queueStats =
  jobsTotal :: nat
  jobsInProgress :: nat
  jobsWaiting :: nat
  full :: bool

definition stats :: "config \<Rightarrow> state \<Rightarrow> queueStats" where
  "stats cfg s =
     \<lparr>jobsTotal = length (waitingJobs s) + length (inProgressJobs s),
      jobsInProgress = length (inProgressJobs s),
      jobsWaiting = length (waitingJobs s),
      full = isFull cfg s\<rparr>"

subsection \<open>Events\<close>

text \<open>
  What happens to a queue: a caller adds a job or cancels the handle of job \<open>i\<close>; the
  timer kept for job \<open>i\<close> fires; the promise returned by the body of job \<open>i\<close> settles
  and its handler runs; the runtime runs the next queued finally callback; time passes.
  An event that cannot happen in a state (no such handle, no timer that can fire, no
  body running, nothing queued) leaves the state as it is. Events come in any order:
  no timing is assumed between timers, bodies and callers, and a caller may act between
  two callbacks of the runtime. Each event runs to completion, as a JavaScript turn does;
  what an exception interrupts stays as far as it got. The hook \<open>onCancel\<close>, the bodies
  and the subscribers are taken not to call back into the queue while they run.
\<close>

datatype event =
    Add body "hook option"
  | Cancel nat
  | TimerFire nat
  | BodyDone nat completion
  | Microtask
  | Tick nat

definition timerFired :: "subscribers \<Rightarrow> timer \<Rightarrow> state \<Rightarrow> js_value option \<times> state" where
  "timerFired L t s =
     (let j = target t;
          s1 = s\<lparr>timeouts := (timeouts s)(jobId j \<mapsto> Timer (kind t) False j)\<rparr>
      in case kind t of
           QueueWait \<Rightarrow> queueTimeoutFired L j s1
         | Execution \<Rightarrow> processingTimeoutFired L j s1)"

fun step :: "config \<Rightarrow> subscribers \<Rightarrow> event \<Rightarrow> state \<Rightarrow> state" where
  "step cfg L (Add f hook) s = snd (add cfg L f hook s)"
| "step cfg L (Cancel i) s =
     (case issued s i of None \<Rightarrow> s | Some j \<Rightarrow> snd (cancel L (JobHandle j) s))"
| "step cfg L (TimerFire i) s =
     (case timeouts s i of
        None \<Rightarrow> s
      | Some t \<Rightarrow> if armed t then snd (timerFired L t s) else s)"
| "step cfg L (BodyDone i c) s =
     (case running s i of
        None \<Rightarrow> s
      | Some j \<Rightarrow> snd (bodySettled cfg L j c (s\<lparr>running := (running s)(i := None)\<rparr>)))"
| "step cfg L Microtask s =
     (case reactions s of
        [] \<Rightarrow> s
      | (j, out) # rest \<Rightarrow> runFinally cfg L j out (s\<lparr>reactions := rest\<rparr>))"
| "step cfg L (Tick n) s = s\<lparr>clock := clock s + n\<rparr>"

definition exec :: "config \<Rightarrow> subscribers \<Rightarrow> event list \<Rightarrow> state \<Rightarrow> state" where
  "exec cfg L evs s = foldl (\<lambda>s e. step cfg L e s) s evs"

section \<open>Invariants and auxiliary notions\<close>

text \<open>
  The state \<open>processQueue\<close> has built when it enters its \<open>try\<close> and \<open>job.started\<close> has
  gone out: the head taken off \<open>waitingJobs\<close>, the flag set, the queue-wait timer removed,
  the job pushed on \<open>inProgressJobs\<close>, its execution timer armed, its start time written.
\<close>

definition launched :: "subscribers \<Rightarrow> job \<Rightarrow> state \<Rightarrow> state" where
  "launched L j s =
     notify L (job_started (jobId j) (addedToTheQueueAt j))
       ((setUpProcessingTimeout j
          ((removeTimeout (jobId j) (s\<lparr>waitingJobs := tl (waitingJobs s), processing := True\<rparr>))
             \<lparr>inProgressJobs := inProgressJobs s @ [j]\<rparr>))
          \<lparr>startedProcessingAt := (startedProcessingAt s)(jobId j \<mapsto> clock s)\<rparr>)"

text \<open>
  \<open>job.cancel\<close> in parts: what the hook throws, the state once the hook has been
  called, and the state once \<open>job.cancel\<close> has returned.
\<close>

definition hookThrown :: "job \<Rightarrow> js_value option" where
  "hookThrown j = (case onCancel j of Some (HookThrows v) \<Rightarrow> Some v | _ \<Rightarrow> None)"

definition hooked :: "job \<Rightarrow> state \<Rightarrow> state" where
  "hooked j s = (if onCancel j = None then s else s\<lparr>hookCalls := hookCalls s @ [jobId j]\<rparr>)"

definition withdrawn :: "job \<Rightarrow> state \<Rightarrow> state" where
  "withdrawn j s = cleanup j (hooked j s)"

text \<open>
  The guard of \<open>processQueue\<close>: a slot is free, no pass is running and a job waits.
\<close>

definition dispatchable :: "config \<Rightarrow> state \<Rightarrow> bool" where
  "dispatchable cfg s \<longleftrightarrow>
     length (inProgressJobs s) < concurrency cfg \<and> \<not> processing s \<and> waitingJobs s \<noteq> []"

text \<open>
  The ids in the waiting queue, and in both containers, in order.
\<close>

definition waitingIds :: "state \<Rightarrow> nat list" where
  "waitingIds s = map jobId (waitingJobs s)"

definition queueIds :: "state \<Rightarrow> nat list" where
  "queueIds s = map jobId (waitingJobs s @ inProgressJobs s)"

text \<open>
  The containers: every id was handed out by \<open>lastId++\<close>, no id is in them twice, the
  waiting queue is in the order of the ids, and the two bounds of the configuration hold.
\<close>

definition wfQueue :: "config \<Rightarrow> state \<Rightarrow> bool" where
  "wfQueue cfg s \<longleftrightarrow>
     (\<forall>i \<in> set (queueIds s). i < lastId s) \<and>
     distinct (queueIds s) \<and>
     sorted_wrt (<) (waitingIds s) \<and>
     length (waitingJobs s) + length (inProgressJobs s) \<le> maxTaskCount cfg \<and>
     length (inProgressJobs s) \<le> concurrency cfg"

text \<open>
  The closures of the runtime (timers, handlers of running bodies, handles, queued
  finally callbacks) and the promises are those of jobs that were admitted, each kept
  under its job's id.
\<close>

definition wfReg :: "state \<Rightarrow> bool" where
  "wfReg s \<longleftrightarrow>
     (\<forall>i t. timeouts s i = Some t \<longrightarrow> jobId (target t) = i \<and> i < lastId s) \<and>
     (\<forall>i j. running s i = Some j \<longrightarrow> jobId j = i \<and> i < lastId s) \<and>
     (\<forall>i j. issued s i = Some j \<longrightarrow> jobId j = i \<and> i < lastId s) \<and>
     (\<forall>i. promise s i \<noteq> None \<longrightarrow> i < lastId s) \<and>
     (\<forall>r \<in> set (reactions s). jobId (fst r) < lastId s) \<and>
     (\<forall>i. handle s i \<noteq> None \<longrightarrow> i < lastId s)"

text \<open>
  The state the executor in \<open>add\<close> has built when \<open>queue.new\<close> has gone out.
\<close>

definition admitted :: "subscribers \<Rightarrow> job \<Rightarrow> state \<Rightarrow> state" where
  "admitted L j s =
     notify L (queue_new (jobId j) (length (inProgressJobs s)) (Suc (length (waitingJobs s))))
       ((setUpQueueTimeout j (s\<lparr>lastId := Suc (lastId s)\<rparr>))\<lparr>waitingJobs := waitingJobs s @ [j]\<rparr>)"

text \<open>
  The job object \<open>add\<close> builds.
\<close>

definition newJob :: "body \<Rightarrow> hook option \<Rightarrow> state \<Rightarrow> job" where
  "newJob f hook s = \<lparr>fn = f, onCancel = hook, jobId = lastId s, addedToTheQueueAt = clock s\<rparr>"

text \<open>
  The payloads of \<open>job.failure\<close> and \<open>job.started\<close> for a job.
\<close>

definition failureOf :: "job \<Rightarrow> js_value \<Rightarrow> state \<Rightarrow> notification" where
  "failureOf j err s =
     job_failure (jobId j) (addedToTheQueueAt j) (startedProcessingAt s (jobId j)) err"

definition startedOf :: "job \<Rightarrow> notification" where
  "startedOf j = job_started (jobId j) (addedToTheQueueAt j)"

text \<open>
  The ids of the jobs whose finally callback is queued.
\<close>

definition reactionIds :: "state \<Rightarrow> nat list" where
  "reactionIds s = map (\<lambda>r. jobId (fst r)) (reactions s)"

text \<open>
  A promise settles once: a queued finally callback carries the outcome of its promise,
  no job has two callbacks queued, and a settled handle has its promise settled and its
  callback behind it.
\<close>

definition wfOnce :: "state \<Rightarrow> bool" where
  "wfOnce s \<longleftrightarrow>
     (\<forall>r \<in> set (reactions s). promise s (jobId (fst r)) = Some (snd r)) \<and>
     distinct (reactionIds s) \<and>
     (\<forall>i. handle s i \<noteq> None \<longrightarrow> promise s i \<noteq> None \<and> i \<notin> set (reactionIds s))"

text \<open>
  A job whose handle has settled is in neither container.
\<close>

definition wfGone :: "state \<Rightarrow> bool" where
  "wfGone s \<longleftrightarrow> (\<forall>i. handle s i \<noteq> None \<longrightarrow> i \<notin> set (queueIds s))"

text \<open>
  \<open>QueueFull\<close> is the one rejection that is not an outcome of an admitted L job.
\<close>

fun isQueueFull :: "outcome \<Rightarrow> bool" where
  "isQueueFull (Rejected (QueueFull w p)) = True"
| "isQueueFull out = False"

definition wfKind :: "state \<Rightarrow> bool" where
  "wfKind s \<longleftrightarrow>
     (\<forall>i out. promise s i = Some out \<longrightarrow> \<not> isQueueFull out) \<and>
     (\<forall>i out. handle s i = Some out \<longrightarrow> \<not> isQueueFull out)"

text \<open>
  The three together.
\<close>

definition wfRun :: "state \<Rightarrow> bool" where
  "wfRun s \<longleftrightarrow> wfOnce s \<and> wfGone s \<and> wfKind s"

text \<open>
  The invariant of every state a queue reaches, whatever the subscribers do.
\<close>

definition inv :: "config \<Rightarrow> state \<Rightarrow> bool" where
  "inv cfg s \<longleftrightarrow> wfQueue cfg s \<and> wfReg s \<and> wfRun s"

text \<open>
  The order of promotions and the order of admissions, read off the notifications:
  \<open>processQueue\<close> emits \<open>job.started\<close> for every job it pushes on \<open>inProgressJobs\<close>, and
  \<open>add\<close> emits \<open>queue.new\<close> for every job it pushes on \<open>waitingJobs\<close>.
\<close>

fun startedId :: "notification \<Rightarrow> nat list" where
  "startedId (job_started i a) = [i]"
| "startedId n = []"

fun admittedId :: "notification \<Rightarrow> nat list" where
  "admittedId (queue_new i p w) = [i]"
| "admittedId n = []"

definition dispatchOrder :: "state \<Rightarrow> nat list" where
  "dispatchOrder s = concat (map startedId (emitted s))"

definition admissionOrder :: "state \<Rightarrow> nat list" where
  "admissionOrder s = concat (map admittedId (emitted s))"

text \<open>
  Promotions so far are in the order of the ids and come before every job still waiting;
  admissions are in the order of the ids.
\<close>

definition wfFifo :: "state \<Rightarrow> bool" where
  "wfFifo s \<longleftrightarrow>
     sorted_wrt (<) (dispatchOrder s) \<and>
     (\<forall>d \<in> set (dispatchOrder s). d < lastId s) \<and>
     (\<forall>d \<in> set (dispatchOrder s). \<forall>w \<in> set (waitingIds s). d < w) \<and>
     admissionOrder s = [0..<lastId s]"

text \<open>Concrete queues and subscribers for the examples.\<close>

definition twoSlots :: config where
  "twoSlots = \<lparr>queueTimeout = 500, executionTimeout = 250, concurrency = 2, maxTaskCount = 5\<rparr>"

definition noDispatch :: config where
  "noDispatch = \<lparr>queueTimeout = 10, executionTimeout = 1000, concurrency = 0, maxTaskCount = 1\<rparr>"

definition noSubscribers :: subscribers where
  "noSubscribers = (\<lambda>n. [])"

text \<open>
  Two subscribers on \<open>queue.full\<close>, the first of which throws; and one subscriber on
  \<open>job.cancel\<close> that throws.
\<close>

fun fullThrows :: subscribers where
  "fullThrows (queue_full w p) = [Some ''boom'', None]"
| "fullThrows n = []"


text \<open>
  Four jobs on a queue with two slots, then the two running ones cancelled in one
  turn of the caller: two free slots and two jobs waiting.
\<close>

definition twoFree :: state where
  "twoFree = exec twoSlots noSubscribers
     [Add ReturnsPromise None, Add ReturnsPromise None, Add ReturnsPromise None,
      Add ReturnsPromise None, Cancel 0, Cancel 1] Queue"

text \<open>
  The events that are submissions.
\<close>

fun isAdd :: "event \<Rightarrow> bool" where
  "isAdd (Add f hook) = True"
| "isAdd e = False"

text \<open>The state reached by the first job of the examples, and that job.\<close>

definition firstJob :: "body \<Rightarrow> hook option \<Rightarrow> job" where
  "firstJob f hook = \<lparr>fn = f, onCancel = hook, jobId = 0, addedToTheQueueAt = 0\<rparr>"

text \<open>
  Hooks that return. A submission is calm when the \<open>onCancel\<close> it passes, if any,
  returns normally; a state is calm when that holds of the jobs in the waiting queue, of
  the jobs the timers close over and of the jobs of the handles given out.
\<close>

fun calmEvent :: "event \<Rightarrow> bool" where
  "calmEvent (Add f (Some (HookThrows v))) = False"
| "calmEvent e = True"

definition calm :: "event list \<Rightarrow> bool" where
  "calm evs = list_all calmEvent evs"

definition calmState :: "state \<Rightarrow> bool" where
  "calmState s \<longleftrightarrow>
     (\<forall>j \<in> set (waitingJobs s). hookThrown j = None) \<and>
     (\<forall>i t. timeouts s i = Some t \<longrightarrow> hookThrown (target t) = None) \<and>
     (\<forall>i j. issued s i = Some j \<longrightarrow> hookThrown j = None)"

text \<open>
  With subscribers that return: a settled promise has settled its handle or has its
  finally callback queued; a settled handle carries the outcome of its promise; and no
  dispatch pass is left running. With hooks that return as well, a pending promise has an
  armed timer (but for job \<open>k\<close>, in the middle of a callback that is about to settle
  it). The hooks that matter are those of the jobs with an execution timer.
\<close>

definition armedBut :: "nat \<Rightarrow> state \<Rightarrow> bool" where
  "armedBut k s \<longleftrightarrow>
     (\<forall>i < lastId s. i \<noteq> k \<longrightarrow> promise s i = None \<longrightarrow> (\<exists>t. timeouts s i = Some t \<and> armed t))"

definition armedAll :: "state \<Rightarrow> bool" where
  "armedAll s \<longleftrightarrow>
     (\<forall>i < lastId s. promise s i = None \<longrightarrow> (\<exists>t. timeouts s i = Some t \<and> armed t))"

definition queuedAll :: "state \<Rightarrow> bool" where
  "queuedAll s \<longleftrightarrow>
     (\<forall>i. promise s i \<noteq> None \<longrightarrow> handle s i \<noteq> None \<or> i \<in> set (reactionIds s))"

definition passedOn :: "state \<Rightarrow> bool" where
  "passedOn s \<longleftrightarrow> (\<forall>i out. handle s i = Some out \<longrightarrow> promise s i = Some out)"

definition qinv :: "state \<Rightarrow> bool" where
  "qinv s \<longleftrightarrow> queuedAll s \<and> passedOn s \<and> \<not> processing s"

definition calmTimers :: "state \<Rightarrow> bool" where
  "calmTimers s \<longleftrightarrow>
     (\<forall>i t. timeouts s i = Some t \<longrightarrow> kind t = Execution \<longrightarrow> hookThrown (target t) = None)"

text \<open>
  The same but for job \<open>k\<close>, whose callback is running.
\<close>

definition queuedBut :: "nat \<Rightarrow> state \<Rightarrow> bool" where
  "queuedBut k s \<longleftrightarrow>
     (\<forall>i. i \<noteq> k \<longrightarrow> promise s i \<noteq> None \<longrightarrow> handle s i \<noteq> None \<or> i \<in> set (reactionIds s))"

text \<open>
  With \<open>concurrency = 0\<close> and subscribers that return: nothing is active or running,
  nothing was ever promoted, every timer is a queue-wait timer of the job issued under its
  id, a pending job is waiting, and a promise is settled by the caller's cancel or by the
  queue-wait timer.
\<close>

definition starved :: "state \<Rightarrow> bool" where
  "starved s \<longleftrightarrow>
     inProgressJobs s = [] \<and> dispatchOrder s = [] \<and> running s = Map.empty \<and>
     (\<forall>i t. timeouts s i = Some t \<longrightarrow> kind t = QueueWait \<and> issued s i = Some (target t)) \<and>
     (\<forall>i < lastId s. promise s i = None \<longrightarrow> i \<in> set (waitingIds s)) \<and>
     (\<forall>i out. promise s i = Some out \<longrightarrow>
        out = Rejected JobCancelled \<or>
        (\<exists>j. issued s i = Some j \<and> out = Rejected (QueueTimeout (addedToTheQueueAt j))))"



text \<open>
  A job nothing can settle any more: its promise is pending, it has no timer, its body
  is not running (it never started), it is in neither container, and the \<open>cancel\<close> of
  its handle is stopped before \<open>reject\<close>, by the hook or by a subscriber of
  \<open>job.cancel\<close>.
\<close>

definition gone :: "nat \<Rightarrow> state \<Rightarrow> bool" where
  "gone i s \<longleftrightarrow>
     promise s i = None \<and> timeouts s i = None \<and> running s i = None \<and> i \<notin> set (queueIds s)"





fun timeoutThrows :: subscribers where
  "timeoutThrows (queue_timeout i a) = [Some ''boom'']"
| "timeoutThrows n = []"

text \<open>
  Every job in \<open>inProgressJobs\<close> was pushed there by \<open>processQueue\<close>, which emitted
  \<open>job.started\<close> for it.
\<close>

definition activeStarted :: "state \<Rightarrow> bool" where
  "activeStarted s \<longleftrightarrow> jobId ` set (inProgressJobs s) \<subseteq> set (dispatchOrder s)"

section \<open>Lemmas\<close>

lemma notify_fields [simp]:
  "lastId (notify L n s) = lastId s"
  "waitingJobs (notify L n s) = waitingJobs s"
  "inProgressJobs (notify L n s) = inProgressJobs s"
  "timeouts (notify L n s) = timeouts s"
  "processing (notify L n s) = processing s"
  "startedProcessingAt (notify L n s) = startedProcessingAt s"
  "promise (notify L n s) = promise s"
  "handle (notify L n s) = handle s"
  "reactions (notify L n s) = reactions s"
  "running (notify L n s) = running s"
  "issued (notify L n s) = issued s"
  "clock (notify L n s) = clock s"
  "emitted (notify L n s) = emitted s @ [n]"
  "delivered (notify L n s) = delivered s @ [called (L n)]"
  "hookCalls (notify L n s) = hookCalls s"
  by (simp_all add: notify_def)

lemma removeTimeout_fields [simp]:
  "lastId (removeTimeout i s) = lastId s"
  "waitingJobs (removeTimeout i s) = waitingJobs s"
  "inProgressJobs (removeTimeout i s) = inProgressJobs s"
  "timeouts (removeTimeout i s) = (timeouts s)(i := None)"
  "processing (removeTimeout i s) = processing s"
  "startedProcessingAt (removeTimeout i s) = startedProcessingAt s"
  "promise (removeTimeout i s) = promise s"
  "handle (removeTimeout i s) = handle s"
  "reactions (removeTimeout i s) = reactions s"
  "running (removeTimeout i s) = running s"
  "issued (removeTimeout i s) = issued s"
  "clock (removeTimeout i s) = clock s"
  "emitted (removeTimeout i s) = emitted s"
  "delivered (removeTimeout i s) = delivered s"
  "hookCalls (removeTimeout i s) = hookCalls s"
  by (auto simp add: removeTimeout_def)

lemma settle_fields [simp]:
  "lastId (settle j out s) = lastId s"
  "waitingJobs (settle j out s) = waitingJobs s"
  "inProgressJobs (settle j out s) = inProgressJobs s"
  "timeouts (settle j out s) = timeouts s"
  "processing (settle j out s) = processing s"
  "startedProcessingAt (settle j out s) = startedProcessingAt s"
  "handle (settle j out s) = handle s"
  "running (settle j out s) = running s"
  "issued (settle j out s) = issued s"
  "clock (settle j out s) = clock s"
  "emitted (settle j out s) = emitted s"
  "delivered (settle j out s) = delivered s"
  "hookCalls (settle j out s) = hookCalls s"
  by (simp_all add: settle_def)

lemma settle_promise:
  "promise (settle j out s) =
     (if promise s (jobId j) = None then (promise s)(jobId j \<mapsto> out) else promise s)"
  by (simp add: settle_def)

lemma settle_reactions:
  "reactions (settle j out s) =
     (if promise s (jobId j) = None then reactions s @ [(j, out)] else reactions s)"
  by (simp add: settle_def)

lemma setUpQueueTimeout_fields [simp]:
  "lastId (setUpQueueTimeout j s) = lastId s"
  "waitingJobs (setUpQueueTimeout j s) = waitingJobs s"
  "inProgressJobs (setUpQueueTimeout j s) = inProgressJobs s"
  "timeouts (setUpQueueTimeout j s) = (timeouts s)(jobId j \<mapsto> Timer QueueWait True j)"
  "processing (setUpQueueTimeout j s) = processing s"
  "startedProcessingAt (setUpQueueTimeout j s) = startedProcessingAt s"
  "promise (setUpQueueTimeout j s) = promise s"
  "handle (setUpQueueTimeout j s) = handle s"
  "reactions (setUpQueueTimeout j s) = reactions s"
  "running (setUpQueueTimeout j s) = running s"
  "issued (setUpQueueTimeout j s) = issued s"
  "clock (setUpQueueTimeout j s) = clock s"
  "emitted (setUpQueueTimeout j s) = emitted s"
  "delivered (setUpQueueTimeout j s) = delivered s"
  "hookCalls (setUpQueueTimeout j s) = hookCalls s"
  by (simp_all add: setUpQueueTimeout_def)

lemma setUpProcessingTimeout_fields [simp]:
  "lastId (setUpProcessingTimeout j s) = lastId s"
  "waitingJobs (setUpProcessingTimeout j s) = waitingJobs s"
  "inProgressJobs (setUpProcessingTimeout j s) = inProgressJobs s"
  "timeouts (setUpProcessingTimeout j s) = (timeouts s)(jobId j \<mapsto> Timer Execution True j)"
  "processing (setUpProcessingTimeout j s) = processing s"
  "startedProcessingAt (setUpProcessingTimeout j s) = startedProcessingAt s"
  "promise (setUpProcessingTimeout j s) = promise s"
  "handle (setUpProcessingTimeout j s) = handle s"
  "reactions (setUpProcessingTimeout j s) = reactions s"
  "running (setUpProcessingTimeout j s) = running s"
  "issued (setUpProcessingTimeout j s) = issued s"
  "clock (setUpProcessingTimeout j s) = clock s"
  "emitted (setUpProcessingTimeout j s) = emitted s"
  "delivered (setUpProcessingTimeout j s) = delivered s"
  "hookCalls (setUpProcessingTimeout j s) = hookCalls s"
  by (simp_all add: setUpProcessingTimeout_def)

lemma removeFirst_absent: "i \<notin> jobId ` set js \<Longrightarrow> removeFirst i js = js"
  by (induction js) auto

lemma removeJob_fields [simp]:
  "lastId (removeJob j s) = lastId s"
  "timeouts (removeJob j s) = timeouts s"
  "processing (removeJob j s) = processing s"
  "startedProcessingAt (removeJob j s) = startedProcessingAt s"
  "promise (removeJob j s) = promise s"
  "handle (removeJob j s) = handle s"
  "reactions (removeJob j s) = reactions s"
  "running (removeJob j s) = running s"
  "issued (removeJob j s) = issued s"
  "clock (removeJob j s) = clock s"
  "emitted (removeJob j s) = emitted s"
  "delivered (removeJob j s) = delivered s"
  "hookCalls (removeJob j s) = hookCalls s"
  by (simp_all add: removeJob_def)

lemma removeJob_waiting:
  "waitingJobs (removeJob j s) = removeFirst (jobId j) (waitingJobs s)"
  by (simp add: removeJob_def removeFirst_absent)

lemma removeJob_inProgress:
  "inProgressJobs (removeJob j s) =
     (if jobId j \<in> jobId ` set (waitingJobs s) then inProgressJobs s
      else removeFirst (jobId j) (inProgressJobs s))"
  by (simp add: removeJob_def removeFirst_absent)

lemma cleanup_fields [simp]:
  "lastId (cleanup j s) = lastId s"
  "timeouts (cleanup j s) = (timeouts s)(jobId j := None)"
  "processing (cleanup j s) = processing s"
  "startedProcessingAt (cleanup j s) = startedProcessingAt s"
  "promise (cleanup j s) = promise s"
  "handle (cleanup j s) = handle s"
  "reactions (cleanup j s) = reactions s"
  "running (cleanup j s) = running s"
  "issued (cleanup j s) = issued s"
  "clock (cleanup j s) = clock s"
  "emitted (cleanup j s) = emitted s"
  "delivered (cleanup j s) = delivered s"
  "hookCalls (cleanup j s) = hookCalls s"
  "waitingJobs (cleanup j s) = removeFirst (jobId j) (waitingJobs s)"
  "inProgressJobs (cleanup j s) =
     (if jobId j \<in> jobId ` set (waitingJobs s) then inProgressJobs s
      else removeFirst (jobId j) (inProgressJobs s))"
  by (simp_all add: cleanup_def removeJob_waiting removeJob_inProgress)

lemma hooked_fields [simp]:
  "lastId (hooked j s) = lastId s"
  "waitingJobs (hooked j s) = waitingJobs s"
  "inProgressJobs (hooked j s) = inProgressJobs s"
  "timeouts (hooked j s) = timeouts s"
  "processing (hooked j s) = processing s"
  "startedProcessingAt (hooked j s) = startedProcessingAt s"
  "promise (hooked j s) = promise s"
  "handle (hooked j s) = handle s"
  "reactions (hooked j s) = reactions s"
  "running (hooked j s) = running s"
  "issued (hooked j s) = issued s"
  "clock (hooked j s) = clock s"
  "emitted (hooked j s) = emitted s"
  "delivered (hooked j s) = delivered s"
  "hookCalls (hooked j s) = (if onCancel j = None then hookCalls s else hookCalls s @ [jobId j])"
  by (simp_all add: hooked_def)

lemma withdrawn_fields [simp]:
  "lastId (withdrawn j s) = lastId s"
  "timeouts (withdrawn j s) = (timeouts s)(jobId j := None)"
  "processing (withdrawn j s) = processing s"
  "startedProcessingAt (withdrawn j s) = startedProcessingAt s"
  "promise (withdrawn j s) = promise s"
  "handle (withdrawn j s) = handle s"
  "reactions (withdrawn j s) = reactions s"
  "running (withdrawn j s) = running s"
  "issued (withdrawn j s) = issued s"
  "clock (withdrawn j s) = clock s"
  "emitted (withdrawn j s) = emitted s"
  "delivered (withdrawn j s) = delivered s"
  "hookCalls (withdrawn j s) = (if onCancel j = None then hookCalls s else hookCalls s @ [jobId j])"
  "waitingJobs (withdrawn j s) = removeFirst (jobId j) (waitingJobs s)"
  "inProgressJobs (withdrawn j s) =
     (if jobId j \<in> jobId ` set (waitingJobs s) then inProgressJobs s
      else removeFirst (jobId j) (inProgressJobs s))"
  by (simp_all add: withdrawn_def)

lemma jobCancel_unfold:
  "jobCancel j s =
     (case hookThrown j of
        Some v \<Rightarrow> (Some v, hooked j s)
      | None \<Rightarrow> (None, withdrawn j s))"
  by (simp add: jobCancel_def hookThrown_def hooked_def withdrawn_def
        split: option.splits hook.splits)

lemma cancel_unfold:
  "cancel L (JobHandle j) s =
     (case hookThrown j of
        Some v \<Rightarrow> (Some v, hooked j s)
      | None \<Rightarrow>
          (case thrown L (job_cancel (jobId j) (addedToTheQueueAt j)) of
             Some v \<Rightarrow> (Some v, notify L (job_cancel (jobId j) (addedToTheQueueAt j)) (withdrawn j s))
           | None \<Rightarrow>
               (None, settle j (Rejected JobCancelled)
                        (notify L (job_cancel (jobId j) (addedToTheQueueAt j)) (withdrawn j s)))))"
  by (simp add: cancel_def jobCancel_unfold Let_def split: option.splits)

lemma cancel_rejected [simp]: "cancel L (RejectedHandle w p) s = (None, s)"
  by (simp add: cancel_def)

lemma processingTimeoutFired_unfold:
  "processingTimeoutFired L j s =
     (let n = job_timeout (jobId j) (addedToTheQueueAt j) (startedProcessingAt s (jobId j)) in
      case thrown L n of
        Some v \<Rightarrow> (Some v, notify L n s)
      | None \<Rightarrow>
          (case hookThrown j of
             Some v \<Rightarrow> (Some v, hooked j (notify L n s))
           | None \<Rightarrow> (None, settle j (Rejected JobTimeout) (withdrawn j (notify L n s)))))"
  by (simp add: processingTimeoutFired_def jobCancel_unfold Let_def split: option.splits)

lemma launched_fields [simp]:
  "lastId (launched L j s) = lastId s"
  "waitingJobs (launched L j s) = tl (waitingJobs s)"
  "inProgressJobs (launched L j s) = inProgressJobs s @ [j]"
  "timeouts (launched L j s) = (timeouts s)(jobId j \<mapsto> Timer Execution True j)"
  "processing (launched L j s) = True"
  "startedProcessingAt (launched L j s) = (startedProcessingAt s)(jobId j \<mapsto> clock s)"
  "promise (launched L j s) = promise s"
  "handle (launched L j s) = handle s"
  "reactions (launched L j s) = reactions s"
  "running (launched L j s) = running s"
  "issued (launched L j s) = issued s"
  "clock (launched L j s) = clock s"
  "emitted (launched L j s) = emitted s @ [job_started (jobId j) (addedToTheQueueAt j)]"
  "delivered (launched L j s) =
     delivered s @ [called (L (job_started (jobId j) (addedToTheQueueAt j)))]"
  "hookCalls (launched L j s) = hookCalls s"
  by (simp_all add: launched_def)

lemma processQueue_idle:
  "\<not> dispatchable cfg s \<Longrightarrow> processQueue cfg L s = (None, s)"
  by (auto simp: processQueue_def dispatchable_def split: list.splits)

lemma processQueue_dispatch:
  assumes "dispatchable cfg s"
  shows "processQueue cfg L s =
     (let j = hd (waitingJobs s) in
      case thrown L (job_started (jobId j) (addedToTheQueueAt j)) of
        Some v \<Rightarrow> startFailed L j v (launched L j s)
      | None \<Rightarrow>
          (case fn j of
             Throws v \<Rightarrow> startFailed L j v (launched L j s)
           | ReturnsPromise \<Rightarrow>
               (None, (launched L j s)\<lparr>running := (running s)(jobId j \<mapsto> j), processing := False\<rparr>)))"
  using assms
  by (cases "waitingJobs s")
     (auto simp: processQueue_def dispatchable_def startJob_def processJob_def launched_def Let_def
        notify_def setUpProcessingTimeout_def removeTimeout_def
        split: option.splits body.splits)

lemma map_removeFirst: "map jobId (removeFirst i js) = remove1 i (map jobId js)"
  by (induction js) auto

lemma length_removeFirst: "length (removeFirst i js) \<le> length js"
  by (induction js) auto

lemma sorted_wrt_remove1: "sorted_wrt (<) (xs::nat list) \<Longrightarrow> sorted_wrt (<) (remove1 x xs)"
proof (induction xs)
  case Nil
  then show ?case by simp
next
  case (Cons a xs)
  then show ?case
    using set_remove1_subset[of x xs] by auto
qed

lemma cleanup_waitingIds: "waitingIds (cleanup j s) = remove1 (jobId j) (waitingIds s)"
  by (simp add: waitingIds_def map_removeFirst)

lemma cleanup_queueIds: "queueIds (cleanup j s) = remove1 (jobId j) (queueIds s)"
  by (auto simp: queueIds_def map_removeFirst remove1_append remove1_idem)

lemma cleanup_lengths:
  "length (waitingJobs (cleanup j s)) + length (inProgressJobs (cleanup j s))
     \<le> length (waitingJobs s) + length (inProgressJobs s)"
  "length (inProgressJobs (cleanup j s)) \<le> length (inProgressJobs s)"
  using length_removeFirst[of "jobId j" "waitingJobs s"] length_removeFirst[of "jobId j" "inProgressJobs s"]
  by auto

lemma wfQueue_frame:
  "lastId s' = lastId s \<Longrightarrow> waitingJobs s' = waitingJobs s \<Longrightarrow>
   inProgressJobs s' = inProgressJobs s \<Longrightarrow> wfQueue cfg s' = wfQueue cfg s"
  by (simp add: wfQueue_def waitingIds_def queueIds_def)

lemma wfQueue_cleanup:
  assumes "wfQueue cfg s"
  shows "wfQueue cfg (cleanup j s)"
proof -
  have a: "\<forall>i \<in> set (queueIds s). i < lastId s" and b: "distinct (queueIds s)"
    and c: "sorted_wrt (<) (waitingIds s)"
    and d: "length (waitingJobs s) + length (inProgressJobs s) \<le> maxTaskCount cfg"
    and e: "length (inProgressJobs s) \<le> concurrency cfg"
    using assms by (simp_all add: wfQueue_def)
  have "\<forall>i \<in> set (queueIds (cleanup j s)). i < lastId (cleanup j s)"
    using a set_remove1_subset[of "jobId j" "queueIds s"] by (auto simp: cleanup_queueIds)
  moreover have "distinct (queueIds (cleanup j s))"
    using b by (simp add: cleanup_queueIds)
  moreover have "sorted_wrt (<) (waitingIds (cleanup j s))"
    using c by (simp add: cleanup_waitingIds sorted_wrt_remove1)
  moreover have "length (waitingJobs (cleanup j s)) + length (inProgressJobs (cleanup j s)) \<le> maxTaskCount cfg"
    using d cleanup_lengths(1)[of j s] by linarith
  moreover have "length (inProgressJobs (cleanup j s)) \<le> concurrency cfg"
    using e cleanup_lengths(2)[of j s] by linarith
  ultimately show ?thesis unfolding wfQueue_def by blast
qed

lemma wfQueue_hooked [simp]: "wfQueue cfg (hooked j s) = wfQueue cfg s"
  by (simp add: wfQueue_def waitingIds_def queueIds_def)

lemma wfQueue_jobCancel: "wfQueue cfg s \<Longrightarrow> wfQueue cfg (withdrawn j s)"
  unfolding withdrawn_def by (rule wfQueue_cleanup) simp

lemma wfQueue_settle [simp]: "wfQueue cfg (settle j out s) = wfQueue cfg s"
  by (simp add: wfQueue_def waitingIds_def queueIds_def)

lemma wfQueue_notify [simp]: "wfQueue cfg (notify L n s) = wfQueue cfg s"
  by (simp add: wfQueue_def waitingIds_def queueIds_def)

lemma wfQueue_removeTimeout [simp]: "wfQueue cfg (removeTimeout i s) = wfQueue cfg s"
  by (simp add: wfQueue_def waitingIds_def queueIds_def)

lemma wfQueue_launched:
  assumes "wfQueue cfg s" "dispatchable cfg s"
  shows "wfQueue cfg (launched L (hd (waitingJobs s)) s)"
proof -
  obtain j rest where w: "waitingJobs s = j # rest"
    using assms(2) by (cases "waitingJobs s") (auto simp: dispatchable_def)
  show ?thesis
    using assms by (auto simp: wfQueue_def waitingIds_def queueIds_def dispatchable_def w)
qed

lemma startFailed_wfQueue:
  assumes "wfQueue cfg s"
  shows "wfQueue cfg (snd (startFailed L j err s))"
proof -
  have "wfQueue cfg ((cleanup j (settle j out (notify L n s)))\<lparr>processing := False\<rparr>)" for out n
    using wfQueue_cleanup[of cfg "settle j out (notify L n s)" j] assms
    by (simp add: wfQueue_def waitingIds_def queueIds_def)
  then show ?thesis
    using assms by (simp add: startFailed_def Let_def split: option.splits)
qed

lemma processQueue_wfQueue:
  assumes "wfQueue cfg s"
  shows "wfQueue cfg (snd (processQueue cfg L s))"
proof (cases "dispatchable cfg s")
  case False
  then show ?thesis using assms by (simp add: processQueue_idle)
next
  case True
  note l = wfQueue_launched[OF assms True]
  have r: "wfQueue cfg ((launched L (hd (waitingJobs s)) s)\<lparr>running := r, processing := False\<rparr>)" for r
    using l by (simp add: wfQueue_def waitingIds_def queueIds_def)
  show ?thesis
    using startFailed_wfQueue[OF l] r
    by (simp add: processQueue_dispatch[OF True] Let_def split: option.splits body.splits)
qed

lemma wfReg_notify [simp]: "wfReg (notify L n s) = wfReg s"
  by (simp add: wfReg_def)

lemma wfReg_removeTimeout: "wfReg s \<Longrightarrow> wfReg (removeTimeout i s)"
  by (simp add: wfReg_def)

lemma wfReg_cleanup: "wfReg s \<Longrightarrow> wfReg (cleanup j s)"
  by (simp add: wfReg_def)

lemma wfReg_hooked [simp]: "wfReg (hooked j s) = wfReg s"
  by (simp add: wfReg_def)

lemma wfReg_jobCancel: "wfReg s \<Longrightarrow> wfReg (withdrawn j s)"
  by (simp add: wfReg_def)

lemma wfReg_settle: "wfReg s \<Longrightarrow> jobId j < lastId s \<Longrightarrow> wfReg (settle j out s)"
  by (simp add: wfReg_def settle_promise settle_reactions)

lemma wfReg_processing [simp]: "wfReg (s\<lparr>processing := b\<rparr>) = wfReg s"
  by (simp add: wfReg_def)

lemma wfReg_launched: "wfReg s \<Longrightarrow> jobId j < lastId s \<Longrightarrow> wfReg (launched L j s)"
  by (simp add: wfReg_def)

lemma wfReg_running:
  "wfReg s \<Longrightarrow> jobId j < lastId s \<Longrightarrow> wfReg (s\<lparr>running := (running s)(jobId j \<mapsto> j)\<rparr>)"
  by (simp add: wfReg_def)

lemma startFailed_wfReg:
  "wfReg s \<Longrightarrow> jobId j < lastId s \<Longrightarrow> wfReg (snd (startFailed L j err s))"
  by (simp add: startFailed_def Let_def wfReg_cleanup wfReg_settle split: option.splits)

lemma hd_waiting_lt:
  assumes "wfQueue cfg s" "dispatchable cfg s"
  shows "jobId (hd (waitingJobs s)) < lastId s"
  using assms by (cases "waitingJobs s") (auto simp: wfQueue_def queueIds_def dispatchable_def)

lemma processQueue_wfReg:
  assumes "wfReg s" "wfQueue cfg s"
  shows "wfReg (snd (processQueue cfg L s))"
proof (cases "dispatchable cfg s")
  case False
  then show ?thesis using assms by (simp add: processQueue_idle)
next
  case True
  let ?j = "hd (waitingJobs s)"
  have lt: "jobId ?j < lastId s" by (rule hd_waiting_lt[OF assms(2) True])
  have l: "wfReg (launched L ?j s)" by (rule wfReg_launched[OF assms(1) lt])
  have r: "wfReg ((launched L ?j s)\<lparr>running := (running s)(jobId ?j \<mapsto> ?j), processing := False\<rparr>)"
    using wfReg_running[OF l, of ?j] lt by simp
  have f: "wfReg (snd (startFailed L ?j err (launched L ?j s)))" for err
    using startFailed_wfReg[OF l, of ?j] lt by simp
  show ?thesis
    using r f by (simp add: processQueue_dispatch[OF True] Let_def split: option.splits body.splits)
qed

lemma startFailed_fields [simp]:
  "lastId (snd (startFailed L j err s)) = lastId s"
  "handle (snd (startFailed L j err s)) = handle s"
  "issued (snd (startFailed L j err s)) = issued s"
  "clock (snd (startFailed L j err s)) = clock s"
  "hookCalls (snd (startFailed L j err s)) = hookCalls s"
  "running (snd (startFailed L j err s)) = running s"
  by (simp_all add: startFailed_def Let_def split: option.splits)

lemma processQueue_fields [simp]:
  "lastId (snd (processQueue cfg L s)) = lastId s"
  "handle (snd (processQueue cfg L s)) = handle s"
  "issued (snd (processQueue cfg L s)) = issued s"
  "clock (snd (processQueue cfg L s)) = clock s"
  "hookCalls (snd (processQueue cfg L s)) = hookCalls s"
  by (cases "dispatchable cfg s";
      simp add: processQueue_idle processQueue_dispatch Let_def split: option.splits body.splits)+

lemma admitted_fields [simp]:
  "lastId (admitted L j s) = Suc (lastId s)"
  "waitingJobs (admitted L j s) = waitingJobs s @ [j]"
  "inProgressJobs (admitted L j s) = inProgressJobs s"
  "timeouts (admitted L j s) = (timeouts s)(jobId j \<mapsto> Timer QueueWait True j)"
  "processing (admitted L j s) = processing s"
  "startedProcessingAt (admitted L j s) = startedProcessingAt s"
  "promise (admitted L j s) = promise s"
  "handle (admitted L j s) = handle s"
  "reactions (admitted L j s) = reactions s"
  "running (admitted L j s) = running s"
  "issued (admitted L j s) = issued s"
  "clock (admitted L j s) = clock s"
  "emitted (admitted L j s) =
     emitted s @ [queue_new (jobId j) (length (inProgressJobs s)) (Suc (length (waitingJobs s)))]"
  "delivered (admitted L j s) =
     delivered s @
       [called (L (queue_new (jobId j) (length (inProgressJobs s)) (Suc (length (waitingJobs s)))))]"
  "hookCalls (admitted L j s) = hookCalls s"
  by (simp_all add: admitted_def)

lemma newJob_fields [simp]:
  "fn (newJob f hook s) = f"
  "onCancel (newJob f hook s) = hook"
  "jobId (newJob f hook s) = lastId s"
  "addedToTheQueueAt (newJob f hook s) = clock s"
  by (simp_all add: newJob_def)

lemma add_full:
  "isFull cfg s \<Longrightarrow>
   add cfg L f hook s =
     (case thrown L (queue_full (length (waitingJobs s)) (length (inProgressJobs s))) of
        Some v \<Rightarrow> Threw v
      | None \<Rightarrow> Returned (RejectedHandle (length (waitingJobs s)) (length (inProgressJobs s))),
      notify L (queue_full (length (waitingJobs s)) (length (inProgressJobs s))) s)"
  by (simp add: add_def Let_def split: option.splits)

lemma add_admits:
  "\<not> isFull cfg s \<Longrightarrow>
   add cfg L f hook s =
     (let j = newJob f hook s;
          s2 = (case thrown L (queue_new (jobId j) (length (inProgressJobs s)) (Suc (length (waitingJobs s)))) of
                  Some v \<Rightarrow> settle j (Rejected (Raised v)) (admitted L j s)
                | None \<Rightarrow>
                    (case fst (processQueue cfg L (admitted L j s)) of
                       None \<Rightarrow> snd (processQueue cfg L (admitted L j s))
                     | Some v \<Rightarrow> settle j (Rejected (Raised v)) (snd (processQueue cfg L (admitted L j s)))))
      in (Returned (JobHandle j), s2\<lparr>issued := (issued s2)(jobId j \<mapsto> j)\<rparr>))"
  by (simp add: add_def executor_def admitted_def newJob_def Let_def setUpQueueTimeout_def notify_def
        case_prod_unfold split: option.splits)

lemma wfQueue_admitted:
  assumes "wfQueue cfg s" "\<not> isFull cfg s" "jobId j = lastId s"
  shows "wfQueue cfg (admitted L j s)"
  using assms
  by (auto simp: wfQueue_def waitingIds_def queueIds_def isFull_def sorted_wrt_append less_Suc_eq)

lemma wfReg_admitted:
  assumes "wfReg s" "jobId j = lastId s"
  shows "wfReg (admitted L j s)"
  using assms by (auto simp: wfReg_def less_Suc_eq)

lemma wfQueue_issued [simp]: "wfQueue cfg (s\<lparr>issued := x\<rparr>) = wfQueue cfg s"
  by (simp add: wfQueue_def waitingIds_def queueIds_def)

lemma wfReg_issued:
  "wfReg s \<Longrightarrow> jobId j < lastId s \<Longrightarrow> wfReg (s\<lparr>issued := (issued s)(jobId j \<mapsto> j)\<rparr>)"
  by (simp add: wfReg_def)

lemma wfReg_issue:
  "wfReg s \<Longrightarrow> jobId j = i \<Longrightarrow> i < lastId s \<Longrightarrow> wfReg (s\<lparr>issued := (issued s)(i \<mapsto> j)\<rparr>)"
  by (simp add: wfReg_def)

lemma add_wf:
  assumes "wfQueue cfg s" "wfReg s"
  shows "wfQueue cfg (snd (add cfg L f hook s)) \<and> wfReg (snd (add cfg L f hook s))"
proof (cases "isFull cfg s")
  case True
  then show ?thesis using assms by (simp add: add_full)
next
  case False
  let ?j = "newJob f hook s"
  let ?a = "admitted L ?j s"
  let ?n = "queue_new (jobId ?j) (length (inProgressJobs s)) (Suc (length (waitingJobs s)))"
  define s2 where "s2 =
    (case thrown L ?n of
       Some v \<Rightarrow> settle ?j (Rejected (Raised v)) ?a
     | None \<Rightarrow>
         (case fst (processQueue cfg L ?a) of
            None \<Rightarrow> snd (processQueue cfg L ?a)
          | Some v \<Rightarrow> settle ?j (Rejected (Raised v)) (snd (processQueue cfg L ?a))))"
  have q: "wfQueue cfg ?a" by (rule wfQueue_admitted[OF assms(1) False]) simp
  have r: "wfReg ?a" by (rule wfReg_admitted[OF assms(2)]) simp
  have lt: "jobId ?j < lastId ?a" by simp
  have pq: "wfQueue cfg (snd (processQueue cfg L ?a))" by (rule processQueue_wfQueue[OF q])
  have pr: "wfReg (snd (processQueue cfg L ?a))" by (rule processQueue_wfReg[OF r q])
  have s1: "wfReg (settle ?j out ?a)" for out by (rule wfReg_settle[OF r lt])
  have s3: "wfReg (settle ?j out (snd (processQueue cfg L ?a)))" for out
    by (rule wfReg_settle[OF pr]) simp
  have q2: "wfQueue cfg s2" using q pq by (simp add: s2_def split: option.splits)
  have r2: "wfReg s2" using s1 s3 pr by (simp add: s2_def split: option.splits)
  have l2: "lastId s2 = Suc (lastId s)" by (simp add: s2_def split: option.splits)
  have "snd (add cfg L f hook s) = s2\<lparr>issued := (issued s2)(lastId s \<mapsto> ?j)\<rparr>"
    by (simp add: add_admits[OF False] Let_def s2_def)
  moreover have "wfReg (s2\<lparr>issued := (issued s2)(lastId s \<mapsto> ?j)\<rparr>)"
    by (rule wfReg_issue[OF r2]) (simp_all add: l2)
  ultimately show ?thesis using q2 by simp
qed

lemma cancel_wf:
  assumes "wfQueue cfg s" "wfReg s" "jobId j < lastId s"
  shows "wfQueue cfg (snd (cancel L (JobHandle j) s)) \<and> wfReg (snd (cancel L (JobHandle j) s))"
  using assms
  by (simp add: cancel_unfold Let_def wfQueue_jobCancel wfReg_jobCancel wfReg_settle split: option.splits)

lemma wfQueue_timeouts [simp]: "wfQueue cfg (s\<lparr>timeouts := x\<rparr>) = wfQueue cfg s"
  by (simp add: wfQueue_def waitingIds_def queueIds_def)

lemma timerFired_wf:
  assumes "wfQueue cfg s" "wfReg s" "jobId (target t) < lastId s"
  shows "wfQueue cfg (snd (timerFired L t s)) \<and> wfReg (snd (timerFired L t s))"
proof -
  let ?s1 = "s\<lparr>timeouts := (timeouts s)(jobId (target t) \<mapsto> Timer (kind t) False (target t))\<rparr>"
  have r: "wfReg ?s1" using assms(2,3) by (simp add: wfReg_def)
  have q: "wfQueue cfg ?s1" using assms(1) by simp
  have lt: "jobId (target t) < lastId ?s1" using assms(3) by simp
  show ?thesis
    using q r lt
    by (cases "kind t")
       (simp_all add: timerFired_def queueTimeoutFired_def processingTimeoutFired_unfold Let_def
          wfQueue_jobCancel wfReg_jobCancel wfReg_settle wfReg_removeTimeout split: option.splits)
qed

lemma wfQueue_running [simp]: "wfQueue cfg (s\<lparr>running := x\<rparr>) = wfQueue cfg s"
  by (simp add: wfQueue_def waitingIds_def queueIds_def)

lemma wfReg_running_del: "wfReg s \<Longrightarrow> wfReg (s\<lparr>running := (running s)(i := None)\<rparr>)"
  by (simp add: wfReg_def)

lemma bodySettled_wf:
  assumes "wfQueue cfg s" "wfReg s" "jobId j < lastId s"
  shows "wfQueue cfg (snd (bodySettled cfg L j c s)) \<and> wfReg (snd (bodySettled cfg L j c s))"
  using assms
  by (cases c)
     (simp_all add: bodySettled_def Let_def processQueue_wfQueue processQueue_wfReg
        wfQueue_cleanup wfReg_cleanup wfReg_settle split: option.splits)

lemma wfQueue_reactions [simp]: "wfQueue cfg (s\<lparr>reactions := x\<rparr>) = wfQueue cfg s"
  by (simp add: wfQueue_def waitingIds_def queueIds_def)

lemma wfQueue_handle [simp]: "wfQueue cfg (s\<lparr>handle := x\<rparr>) = wfQueue cfg s"
  by (simp add: wfQueue_def waitingIds_def queueIds_def)

lemma wfReg_handle:
  "wfReg s \<Longrightarrow> i < lastId s \<Longrightarrow> wfReg (s\<lparr>handle := (handle s)(i \<mapsto> out)\<rparr>)"
  by (simp add: wfReg_def)

lemma runFinally_wf:
  assumes "wfQueue cfg s" "wfReg s" "jobId j < lastId s"
  shows "wfQueue cfg (runFinally cfg L j out s) \<and> wfReg (runFinally cfg L j out s)"
proof -
  let ?p = "processQueue cfg L (cleanup j s)"
  have q: "wfQueue cfg (snd ?p)" by (rule processQueue_wfQueue[OF wfQueue_cleanup[OF assms(1)]])
  have r: "wfReg (snd ?p)"
    by (rule processQueue_wfReg[OF wfReg_cleanup[OF assms(2)] wfQueue_cleanup[OF assms(1)]])
  have lt: "jobId j < lastId (snd ?p)" using assms(3) by simp
  show ?thesis
    using q wfReg_handle[OF r lt]
    by (cases ?p) (auto simp: runFinally_def split: option.splits)
qed

lemma wfReg_reactions_tl:
  "wfReg s \<Longrightarrow> reactions s = r # rest \<Longrightarrow> wfReg (s\<lparr>reactions := rest\<rparr>)"
  by (simp add: wfReg_def)

lemma step_wf:
  assumes "wfQueue cfg s" "wfReg s"
  shows "wfQueue cfg (step cfg L e s) \<and> wfReg (step cfg L e s)"
proof (cases e)
  case (Add f hook)
  then show ?thesis using add_wf[OF assms] by simp
next
  case (Cancel i)
  show ?thesis
  proof (cases "issued s i")
    case None
    then show ?thesis using assms Cancel by simp
  next
    case (Some j)
    then have "jobId j < lastId s" using assms(2) by (auto simp: wfReg_def)
    then show ?thesis using cancel_wf[OF assms] Cancel Some by simp
  qed
next
  case (TimerFire i)
  show ?thesis
  proof (cases "timeouts s i")
    case None
    then show ?thesis using assms TimerFire by simp
  next
    case (Some t)
    then have "jobId (target t) < lastId s" using assms(2) by (auto simp: wfReg_def)
    then show ?thesis using timerFired_wf[OF assms] TimerFire Some assms by simp
  qed
next
  case (BodyDone i c)
  show ?thesis
  proof (cases "running s i")
    case None
    then show ?thesis using assms BodyDone by simp
  next
    case (Some j)
    let ?s0 = "s\<lparr>running := (running s)(i := None)\<rparr>"
    have lt: "jobId j < lastId ?s0" using Some assms(2) by (auto simp: wfReg_def)
    have "wfQueue cfg ?s0" "wfReg ?s0" using assms by (simp_all add: wfReg_running_del)
    then show ?thesis using bodySettled_wf[OF _ _ lt] BodyDone Some by simp
  qed
next
  case Microtask
  show ?thesis
  proof (cases "reactions s")
    case Nil
    then show ?thesis using assms Microtask by simp
  next
    case (Cons r rest)
    obtain j out where r: "r = (j, out)" by (cases r)
    let ?s0 = "s\<lparr>reactions := rest\<rparr>"
    have lt: "jobId j < lastId ?s0" using Cons r assms(2) by (auto simp: wfReg_def)
    have "wfQueue cfg ?s0" "wfReg ?s0" using assms Cons by (simp_all add: wfReg_reactions_tl)
    then show ?thesis using runFinally_wf[OF _ _ lt] Microtask Cons r by simp
  qed
next
  case (Tick n)
  then show ?thesis using assms by (simp add: wfQueue_def wfReg_def waitingIds_def queueIds_def)
qed

lemma exec_snoc: "exec cfg L (evs @ [e]) s = step cfg L e (exec cfg L evs s)"
  by (simp add: exec_def)

lemma exec_Nil [simp]: "exec cfg L [] s = s"
  by (simp add: exec_def)

lemma exec_append: "exec cfg L (evs @ evs') s = exec cfg L evs' (exec cfg L evs s)"
  by (simp add: exec_def)

lemma wf_Queue: "wfQueue cfg Queue \<and> wfReg Queue"
  by (simp add: wfQueue_def wfReg_def waitingIds_def queueIds_def Queue_def)

lemma exec_wf:
  assumes "wfQueue cfg s" "wfReg s"
  shows "wfQueue cfg (exec cfg L evs s) \<and> wfReg (exec cfg L evs s)"
proof (induction evs rule: rev_induct)
  case Nil
  then show ?case using assms by simp
next
  case (snoc e evs)
  then show ?case using step_wf by (simp add: exec_snoc)
qed

lemma processQueue_cases [case_names idle started failed stuck]:
  fixes cfg L s
  defines "j \<equiv> hd (waitingJobs s)"
  obtains
    (idle) "\<not> dispatchable cfg s" "processQueue cfg L s = (None, s)"
  | (started) "dispatchable cfg s" "thrown L (startedOf j) = None" "fn j = ReturnsPromise"
      "processQueue cfg L s =
         (None, (launched L j s)\<lparr>running := (running s)(jobId j \<mapsto> j), processing := False\<rparr>)"
  | (failed) err where "dispatchable cfg s"
      "thrown L (startedOf j) = Some err \<or> thrown L (startedOf j) = None \<and> fn j = Throws err"
      "thrown L (failureOf j err (launched L j s)) = None"
      "processQueue cfg L s =
         (None, (cleanup j (settle j (Rejected (Raised err))
                   (notify L (failureOf j err (launched L j s)) (launched L j s))))\<lparr>processing := False\<rparr>)"
  | (stuck) err v where "dispatchable cfg s"
      "thrown L (startedOf j) = Some err \<or> thrown L (startedOf j) = None \<and> fn j = Throws err"
      "thrown L (failureOf j err (launched L j s)) = Some v"
      "processQueue cfg L s = (Some v, notify L (failureOf j err (launched L j s)) (launched L j s))"
proof (cases "dispatchable cfg s")
  case False
  then show ?thesis using idle by (simp add: processQueue_idle)
next
  case True
  note d = processQueue_dispatch[OF True, of L, folded j_def]
  have sf: "startFailed L j err (launched L j s) =
      (case thrown L (failureOf j err (launched L j s)) of
         Some v \<Rightarrow> (Some v, notify L (failureOf j err (launched L j s)) (launched L j s))
       | None \<Rightarrow> (None, (cleanup j (settle j (Rejected (Raised err))
                   (notify L (failureOf j err (launched L j s)) (launched L j s))))\<lparr>processing := False\<rparr>))" for err
    by (simp add: startFailed_def failureOf_def Let_def split: option.splits)
  show ?thesis
  proof (cases "thrown L (startedOf j)")
    case None
    note n = this
    show ?thesis
    proof (cases "fn j")
      case (Throws err)
      show ?thesis
      proof (cases "thrown L (failureOf j err (launched L j s))")
        case None
        then show ?thesis
          using failed[of err] True n Throws d sf[of err] by (simp add: startedOf_def Let_def)
      next
        case (Some v)
        then show ?thesis
          using stuck[of err v] True n Throws d sf[of err] by (simp add: startedOf_def Let_def)
      qed
    next
      case ReturnsPromise
      then show ?thesis using started True n d by (simp add: startedOf_def Let_def)
    qed
  next
    case (Some err)
    note e = this
    show ?thesis
    proof (cases "thrown L (failureOf j err (launched L j s))")
      case None
      then show ?thesis
        using failed[of err] True e d sf[of err] by (simp add: startedOf_def Let_def)
    next
      case (Some v)
      then show ?thesis
        using stuck[of err v] True e d sf[of err] by (simp add: startedOf_def Let_def)
    qed
  qed
qed

lemma reactionIds_settle:
  "reactionIds (settle j out s) =
     (if promise s (jobId j) = None then reactionIds s @ [jobId j] else reactionIds s)"
  by (simp add: reactionIds_def settle_reactions)

lemma reaction_promise:
  "wfOnce s \<Longrightarrow> i \<in> set (reactionIds s) \<Longrightarrow> promise s i \<noteq> None"
  by (auto simp: wfOnce_def reactionIds_def)

lemma wfOnce_settle:
  assumes "wfOnce s"
  shows "wfOnce (settle j out s)"
proof (cases "promise s (jobId j) = None")
  case False
  then show ?thesis using assms by (auto simp: settle_def)
next
  case True
  have n: "jobId j \<notin> set (reactionIds s)"
    using reaction_promise[OF assms] True by blast
  have "\<forall>r \<in> set (reactions s). jobId (fst r) \<noteq> jobId j"
    using n by (force simp: reactionIds_def)
  then show ?thesis
    using assms True n
    by (auto simp: wfOnce_def reactionIds_settle settle_promise settle_reactions)
qed

lemma queueIds_settle [simp]: "queueIds (settle j out s) = queueIds s"
  by (simp add: queueIds_def)

lemma wfRun_settle:
  assumes "wfRun s" "\<not> isQueueFull out"
  shows "wfRun (settle j out s)"
proof -
  have "wfGone (settle j out s)" using assms(1) by (simp add: wfRun_def wfGone_def)
  moreover have "wfKind (settle j out s)"
    using assms by (auto simp: wfRun_def wfKind_def settle_promise split: if_splits)
  ultimately show ?thesis using assms(1) wfOnce_settle by (simp add: wfRun_def)
qed

lemma wfRun_same:
  assumes "promise s' = promise s" "handle s' = handle s" "reactions s' = reactions s"
    "set (queueIds s') \<subseteq> set (queueIds s)" "wfRun s"
  shows "wfRun s'"
  using assms unfolding wfRun_def wfOnce_def wfGone_def wfKind_def reactionIds_def
  by (simp add: subset_iff) blast

lemma queueIds_cleanup_subset: "set (queueIds (cleanup j s)) \<subseteq> set (queueIds s)"
  by (simp add: cleanup_queueIds set_remove1_subset)

lemma wfRun_notify [simp]: "wfRun (notify L n s) = wfRun s"
  by (simp add: wfRun_def wfOnce_def wfGone_def wfKind_def reactionIds_def queueIds_def)

lemma wfRun_removeTimeout [simp]: "wfRun (removeTimeout i s) = wfRun s"
  by (simp add: wfRun_def wfOnce_def wfGone_def wfKind_def reactionIds_def queueIds_def)

lemma wfRun_cleanup: "wfRun s \<Longrightarrow> wfRun (cleanup j s)"
  by (rule wfRun_same[of _ s]) (simp_all add: queueIds_cleanup_subset)

lemma wfRun_hooked [simp]: "wfRun (hooked j s) = wfRun s"
  by (simp add: wfRun_def wfOnce_def wfGone_def wfKind_def reactionIds_def queueIds_def)

lemma wfRun_jobCancel: "wfRun s \<Longrightarrow> wfRun (withdrawn j s)"
  unfolding withdrawn_def by (rule wfRun_cleanup) simp

lemma queueIds_launched:
  "waitingJobs s \<noteq> [] \<Longrightarrow> set (queueIds (launched L (hd (waitingJobs s)) s)) = set (queueIds s)"
  by (cases "waitingJobs s") (auto simp: queueIds_def)

lemma wfRun_launched:
  "wfRun s \<Longrightarrow> dispatchable cfg s \<Longrightarrow> wfRun (launched L (hd (waitingJobs s)) s)"
  by (rule wfRun_same[of _ s]) (simp_all add: queueIds_launched dispatchable_def)

lemma wfRun_fields [simp]:
  "wfRun (s\<lparr>processing := b\<rparr>) = wfRun s"
  "wfRun (s\<lparr>running := r\<rparr>) = wfRun s"
  "wfRun (s\<lparr>issued := x\<rparr>) = wfRun s"
  "wfRun (s\<lparr>timeouts := t\<rparr>) = wfRun s"
  "wfRun (s\<lparr>clock := c\<rparr>) = wfRun s"
  by (simp_all add: wfRun_def wfOnce_def wfGone_def wfKind_def reactionIds_def queueIds_def)

lemma processQueue_wfRun:
  assumes "wfRun s"
  shows "wfRun (snd (processQueue cfg L s))"
proof (cases rule: processQueue_cases[of cfg s L])
  case idle
  then show ?thesis using assms by simp
next
  case started
  then show ?thesis using wfRun_launched[OF assms] by simp
next
  case (failed err)
  then show ?thesis
    using wfRun_launched[OF assms failed(1)] by (simp add: wfRun_cleanup wfRun_settle)
next
  case (stuck err v)
  then show ?thesis using wfRun_launched[OF assms stuck(1)] by simp
qed

lemma processQueue_queueIds: "set (queueIds (snd (processQueue cfg L s))) \<subseteq> set (queueIds s)"
proof (cases rule: processQueue_cases[of cfg s L])
  case idle
  then show ?thesis by simp
next
  case started
  then show ?thesis
    using queueIds_launched[of s] by (simp add: dispatchable_def queueIds_def)
next
  case (failed err)
  let ?j = "hd (waitingJobs s)"
  have "set (queueIds (cleanup ?j (settle ?j (Rejected (Raised err))
          (notify L (failureOf ?j err (launched L ?j s)) (launched L ?j s))))) \<subseteq> set (queueIds (launched L ?j s))"
    using queueIds_cleanup_subset[of ?j "settle ?j (Rejected (Raised err))
          (notify L (failureOf ?j err (launched L ?j s)) (launched L ?j s))"]
    by (simp add: queueIds_def)
  then show ?thesis
    using failed queueIds_launched[of s] by (simp add: dispatchable_def queueIds_def)
next
  case (stuck err v)
  then show ?thesis
    using queueIds_launched[of s] by (simp add: dispatchable_def queueIds_def)
qed

lemma settle_promise_mono:
  "promise s i = Some out \<Longrightarrow> promise (settle j out' s) i = Some out"
  by (auto simp: settle_promise)

lemma processQueue_promise_mono:
  "promise s i = Some out \<Longrightarrow> promise (snd (processQueue cfg L s)) i = Some out"
  by (cases rule: processQueue_cases[of cfg s L]) (auto simp: settle_promise)

lemma processQueue_reactionIds:
  assumes "promise s i \<noteq> None" "i \<notin> set (reactionIds s)"
  shows "i \<notin> set (reactionIds (snd (processQueue cfg L s)))"
  using assms
  by (cases rule: processQueue_cases[of cfg s L])
     (auto simp: reactionIds_def settle_reactions split: if_splits)

lemma wfRun_admitted:
  assumes "wfRun s" "wfReg s" "jobId j = lastId s"
  shows "wfRun (admitted L j s)"
proof -
  have "handle s (lastId s) = None" using assms(2) by (auto simp: wfReg_def)
  then show ?thesis
    using assms(1,3)
    by (auto simp: wfRun_def wfOnce_def wfGone_def wfKind_def reactionIds_def queueIds_def)
qed

lemma add_wfRun:
  assumes "wfRun s" "wfReg s"
  shows "wfRun (snd (add cfg L f hook s))"
proof (cases "isFull cfg s")
  case True
  then show ?thesis using assms by (simp add: add_full)
next
  case False
  let ?j = "newJob f hook s"
  have a: "wfRun (admitted L ?j s)" by (rule wfRun_admitted[OF assms]) simp
  show ?thesis
    using a by (simp add: add_admits[OF False] Let_def wfRun_settle processQueue_wfRun split: option.splits)
qed

lemma cancel_wfRun:
  "wfRun s \<Longrightarrow> wfRun (snd (cancel L h s))"
  by (cases h) (simp_all add: cancel_unfold Let_def wfRun_jobCancel wfRun_settle split: option.splits)

lemma timerFired_wfRun:
  "wfRun s \<Longrightarrow> wfRun (snd (timerFired L t s))"
  by (cases "kind t")
     (simp_all add: timerFired_def queueTimeoutFired_def processingTimeoutFired_unfold Let_def
        wfRun_jobCancel wfRun_settle split: option.splits)

lemma bodySettled_wfRun:
  "wfRun s \<Longrightarrow> wfRun (snd (bodySettled cfg L j c s))"
  by (cases c)
     (simp_all add: bodySettled_def Let_def wfRun_cleanup wfRun_settle processQueue_wfRun
        split: option.splits)

lemma queueIds_cleanup_gone:
  "distinct (queueIds s) \<Longrightarrow> jobId j \<notin> set (queueIds (cleanup j s))"
  by (simp add: cleanup_queueIds)

lemma wfRun_handle:
  assumes "wfRun s" "promise s i \<noteq> None" "i \<notin> set (reactionIds s)" "i \<notin> set (queueIds s)"
    "\<not> isQueueFull out"
  shows "wfRun (s\<lparr>handle := (handle s)(i \<mapsto> out)\<rparr>)"
  using assms
  by (auto simp: wfRun_def wfOnce_def wfGone_def wfKind_def reactionIds_def queueIds_def)

lemma runFinally_wfRun:
  assumes "wfRun s" "wfQueue cfg s" "reactions s = (j, out) # rest"
  shows "wfRun (runFinally cfg L j out (s\<lparr>reactions := rest\<rparr>))"
proof -
  let ?s0 = "s\<lparr>reactions := rest\<rparr>"
  let ?s1 = "cleanup j ?s0"
  let ?p = "processQueue cfg L ?s1"
  have once: "wfOnce s" and kind: "wfKind s" using assms(1) by (simp_all add: wfRun_def)
  have pj: "promise s (jobId j) = Some out"
    using once assms(3) by (auto simp: wfOnce_def)
  have nq: "\<not> isQueueFull out" using kind pj by (auto simp: wfKind_def)
  have nr: "jobId j \<notin> set (reactionIds ?s0)"
    using once assms(3) by (auto simp: wfOnce_def reactionIds_def)
  have w0: "wfRun ?s0"
    using assms(1,3)
    by (auto simp: wfRun_def wfOnce_def wfGone_def wfKind_def reactionIds_def queueIds_def)
  have w2: "wfRun (snd ?p)" by (rule processQueue_wfRun[OF wfRun_cleanup[OF w0]])
  have "distinct (queueIds ?s0)" using assms(2) by (simp add: wfQueue_def queueIds_def)
  then have "jobId j \<notin> set (queueIds ?s1)" by (rule queueIds_cleanup_gone)
  then have g2: "jobId j \<notin> set (queueIds (snd ?p))"
    using processQueue_queueIds[of cfg L ?s1] by blast
  have p2: "promise (snd ?p) (jobId j) \<noteq> None"
    using processQueue_promise_mono[of ?s1 "jobId j" out cfg L] pj by simp
  have r2: "jobId j \<notin> set (reactionIds (snd ?p))"
    by (rule processQueue_reactionIds) (use pj nr in \<open>simp_all add: reactionIds_def\<close>)
  have h: "wfRun ((snd ?p)\<lparr>handle := (handle (snd ?p))(jobId j \<mapsto> x)\<rparr>)" if "\<not> isQueueFull x" for x
    by (rule wfRun_handle[OF w2 p2 r2 g2 that])
  show ?thesis
    using h[OF nq] h[of "Rejected (Raised v)" for v]
    by (cases ?p) (auto simp: runFinally_def split: option.splits)
qed

lemma step_inv:
  assumes "inv cfg s"
  shows "inv cfg (step cfg L e s)"
proof -
  have q: "wfQueue cfg s" and r: "wfReg s" and u: "wfRun s" using assms by (simp_all add: inv_def)
  have "wfRun (step cfg L e s)"
  proof (cases e)
    case (Add f hook)
    then show ?thesis using add_wfRun[OF u r] by simp
  next
    case (Cancel i)
    then show ?thesis using u cancel_wfRun[OF u] by (simp split: option.splits)
  next
    case (TimerFire i)
    then show ?thesis using u timerFired_wfRun[OF u] by (simp split: option.splits)
  next
    case (BodyDone i c)
    have "wfRun (s\<lparr>running := x\<rparr>)" for x using u by simp
    then show ?thesis using u BodyDone bodySettled_wfRun by (simp split: option.splits)
  next
    case Microtask
    then show ?thesis using u runFinally_wfRun[OF u q] by (auto split: list.splits)
  next
    case (Tick n)
    then show ?thesis using u by simp
  qed
  then show ?thesis using step_wf[OF q r] by (simp add: inv_def)
qed

lemma inv_Queue: "inv cfg Queue"
  using wf_Queue[of cfg]
  by (simp add: inv_def wfRun_def wfOnce_def wfGone_def wfKind_def reactionIds_def queueIds_def Queue_def)

lemma exec_inv: "inv cfg s \<Longrightarrow> inv cfg (exec cfg L evs s)"
  by (induction evs rule: rev_induct) (simp_all add: exec_snoc step_inv)

lemma reachable_inv: "inv cfg (exec cfg L evs Queue)"
  by (rule exec_inv[OF inv_Queue])

lemma orders_notify:
  "dispatchOrder (notify L n s) = dispatchOrder s @ startedId n"
  "admissionOrder (notify L n s) = admissionOrder s @ admittedId n"
  by (simp_all add: dispatchOrder_def admissionOrder_def)

lemma orders_same:
  "emitted s' = emitted s \<Longrightarrow> dispatchOrder s' = dispatchOrder s"
  "emitted s' = emitted s \<Longrightarrow> admissionOrder s' = admissionOrder s"
  by (simp_all add: dispatchOrder_def admissionOrder_def)

lemma orders_prims [simp]:
  "dispatchOrder (removeTimeout i s) = dispatchOrder s"
  "admissionOrder (removeTimeout i s) = admissionOrder s"
  "dispatchOrder (settle j out s) = dispatchOrder s"
  "admissionOrder (settle j out s) = admissionOrder s"
  "dispatchOrder (cleanup j s) = dispatchOrder s"
  "admissionOrder (cleanup j s) = admissionOrder s"
  "dispatchOrder (withdrawn j s) = dispatchOrder s"
  "admissionOrder (withdrawn j s) = admissionOrder s"
  "dispatchOrder (hooked j s) = dispatchOrder s"
  "admissionOrder (hooked j s) = admissionOrder s"
  "dispatchOrder (launched L j s) = dispatchOrder s @ [jobId j]"
  "admissionOrder (launched L j s) = admissionOrder s"
  "dispatchOrder (admitted L j s) = dispatchOrder s"
  "admissionOrder (admitted L j s) = admissionOrder s @ [jobId j]"
  "dispatchOrder (notify L (failureOf j err s') s) = dispatchOrder s"
  "admissionOrder (notify L (failureOf j err s') s) = admissionOrder s"
  by (simp_all add: dispatchOrder_def admissionOrder_def failureOf_def)

lemma orders_fields [simp]:
  "dispatchOrder (s\<lparr>processing := b\<rparr>) = dispatchOrder s"
  "admissionOrder (s\<lparr>processing := b\<rparr>) = admissionOrder s"
  "dispatchOrder (s\<lparr>running := r\<rparr>) = dispatchOrder s"
  "admissionOrder (s\<lparr>running := r\<rparr>) = admissionOrder s"
  "dispatchOrder (s\<lparr>issued := x\<rparr>) = dispatchOrder s"
  "admissionOrder (s\<lparr>issued := x\<rparr>) = admissionOrder s"
  "dispatchOrder (s\<lparr>timeouts := t\<rparr>) = dispatchOrder s"
  "admissionOrder (s\<lparr>timeouts := t\<rparr>) = admissionOrder s"
  "dispatchOrder (s\<lparr>clock := c\<rparr>) = dispatchOrder s"
  "admissionOrder (s\<lparr>clock := c\<rparr>) = admissionOrder s"
  "dispatchOrder (s\<lparr>reactions := rs\<rparr>) = dispatchOrder s"
  "admissionOrder (s\<lparr>reactions := rs\<rparr>) = admissionOrder s"
  "dispatchOrder (s\<lparr>handle := h\<rparr>) = dispatchOrder s"
  "admissionOrder (s\<lparr>handle := h\<rparr>) = admissionOrder s"
  by (simp_all add: dispatchOrder_def admissionOrder_def)

lemma processQueue_orders:
  "dispatchOrder (snd (processQueue cfg L s)) =
     dispatchOrder s @ (if dispatchable cfg s then [jobId (hd (waitingJobs s))] else [])"
  "admissionOrder (snd (processQueue cfg L s)) = admissionOrder s"
  by (cases rule: processQueue_cases[of cfg s L]; simp)+





lemma wfFifo_prims [simp]:
  "wfFifo (settle j out s) = wfFifo s"
  "wfFifo (removeTimeout i s) = wfFifo s"
  "wfFifo (s\<lparr>processing := b\<rparr>) = wfFifo s"
  "wfFifo (s\<lparr>running := r\<rparr>) = wfFifo s"
  "wfFifo (s\<lparr>issued := x\<rparr>) = wfFifo s"
  "wfFifo (s\<lparr>timeouts := t\<rparr>) = wfFifo s"
  "wfFifo (s\<lparr>clock := c\<rparr>) = wfFifo s"
  "wfFifo (s\<lparr>reactions := rs\<rparr>) = wfFifo s"
  "wfFifo (s\<lparr>handle := h\<rparr>) = wfFifo s"
  "wfFifo (notify L (failureOf j err s') s) = wfFifo s"
  "wfFifo (hooked j s) = wfFifo s"
  by (simp_all add: wfFifo_def waitingIds_def)













lemma handler_handle [simp]:
  "handle (snd (add cfg L f hook s)) = handle s"
  "handle (snd (cancel L h s)) = handle s"
  "handle (snd (timerFired L t s)) = handle s"
  "handle (snd (bodySettled cfg L j c s)) = handle s"
proof -
  show "handle (snd (add cfg L f hook s)) = handle s"
    by (cases "isFull cfg s") (simp_all add: add_full add_admits Let_def split: option.splits)
  show "handle (snd (cancel L h s)) = handle s"
    by (cases h) (simp_all add: cancel_unfold Let_def split: option.splits)
  show "handle (snd (timerFired L t s)) = handle s"
    by (cases "kind t")
       (simp_all add: timerFired_def queueTimeoutFired_def processingTimeoutFired_unfold Let_def
          split: option.splits)
  show "handle (snd (bodySettled cfg L j c s)) = handle s"
    by (cases c) (simp_all add: bodySettled_def Let_def split: option.splits)
qed

lemma runFinally_handle:
  "handle (runFinally cfg L j out s) i =
     (if i = jobId j
      then Some (case fst (processQueue cfg L (cleanup j s)) of
                   None \<Rightarrow> out | Some v \<Rightarrow> Rejected (Raised v))
      else handle s i)"
  by (cases "processQueue cfg L (cleanup j s)")
     (simp add: runFinally_def split: option.splits, use processQueue_fields(2)[of cfg L "cleanup j s"] in auto)

lemma step_handle_stable:
  assumes "inv cfg s" "handle s i = Some out"
  shows "handle (step cfg L e s) i = Some out"
proof (cases e)
  case Microtask
  show ?thesis
  proof (cases "reactions s")
    case Nil
    then show ?thesis using assms Microtask by simp
  next
    case (Cons r rest)
    obtain j out' where r: "r = (j, out')" by (cases r)
    have "wfOnce s" using assms(1) by (simp add: inv_def wfRun_def)
    then have "i \<notin> set (reactionIds s)" using assms(2) by (auto simp: wfOnce_def)
    then have "i \<noteq> jobId j" using Cons r by (auto simp: reactionIds_def)
    then show ?thesis using assms(2) Microtask Cons r by (simp add: runFinally_handle)
  qed
qed (use assms in \<open>simp_all split: option.splits\<close>)

lemma handler_promise_mono:
  assumes "promise s i = Some out"
  shows "promise (snd (add cfg L f hook s)) i = Some out"
    and "promise (snd (cancel L h s)) i = Some out"
    and "promise (snd (timerFired L t s)) i = Some out"
    and "promise (snd (bodySettled cfg L j c s)) i = Some out"
    and "promise (runFinally cfg L j out' s) i = Some out"
proof -
  show "promise (snd (add cfg L f hook s)) i = Some out"
    using assms
    by (cases "isFull cfg s")
       (simp_all add: add_full add_admits Let_def settle_promise_mono processQueue_promise_mono
          split: option.splits)
  show "promise (snd (cancel L h s)) i = Some out"
    using assms by (cases h) (simp_all add: cancel_unfold Let_def settle_promise_mono split: option.splits)
  show "promise (snd (timerFired L t s)) i = Some out"
    using assms
    by (cases "kind t")
       (simp_all add: timerFired_def queueTimeoutFired_def processingTimeoutFired_unfold Let_def
          settle_promise_mono split: option.splits)
  show "promise (snd (bodySettled cfg L j c s)) i = Some out"
    using assms
    by (cases c)
       (simp_all add: bodySettled_def Let_def settle_promise_mono processQueue_promise_mono
          split: option.splits)
  show "promise (runFinally cfg L j out' s) i = Some out"
    using processQueue_promise_mono[of "cleanup j s" i out cfg L] assms
    by (cases "processQueue cfg L (cleanup j s)") (auto simp: runFinally_def split: option.splits)
qed

lemma step_promise_mono:
  assumes "promise s i = Some out"
  shows "promise (step cfg L e s) i = Some out"
proof (cases e)
  case (BodyDone k c)
  have "promise (s\<lparr>running := x\<rparr>) i = Some out" for x using assms by simp
  then show ?thesis using assms BodyDone by (simp add: handler_promise_mono split: option.splits)
next
  case Microtask
  have "promise (s\<lparr>reactions := x\<rparr>) i = Some out" for x using assms by simp
  then show ?thesis using assms Microtask by (simp add: handler_promise_mono split: list.splits)
qed (use assms in \<open>simp_all add: handler_promise_mono split: option.splits\<close>)








lemma quiet_thrown [simp]: "quiet L \<Longrightarrow> thrown L n = None"
  by (simp add: quiet_def)

lemma quiet_noSubscribers [simp]: "quiet noSubscribers"
  by (simp add: quiet_def thrown_def noSubscribers_def)

lemma processQueue_busy: "processing s \<Longrightarrow> processQueue cfg L s = (None, s)"
  by (simp add: processQueue_def)

lemma removeFirst_tl:
  "distinct (map jobId js) \<Longrightarrow> js \<noteq> [] \<Longrightarrow> removeFirst (jobId (hd js)) (tl js) = tl js"
  by (cases js) (auto simp: removeFirst_absent)

lemma removeFirst_last:
  "jobId j \<notin> jobId ` set js \<Longrightarrow> removeFirst (jobId j) (js @ [j]) = js"
  by (induction js) auto

lemma dispatch_one:
  assumes "dispatchable cfg s" "distinct (queueIds s)"
  shows "waitingJobs (snd (processQueue cfg L s)) = tl (waitingJobs s)"
    and "inProgressJobs (snd (processQueue cfg L s)) = inProgressJobs s @ [hd (waitingJobs s)] \<or>
         inProgressJobs (snd (processQueue cfg L s)) = inProgressJobs s"
proof -
  obtain j rest where w: "waitingJobs s = j # rest"
    using assms(1) by (cases "waitingJobs s") (auto simp: dispatchable_def)
  have d: "jobId j \<notin> jobId ` set rest" "jobId j \<notin> jobId ` set (inProgressJobs s)"
    using assms(2) by (auto simp: queueIds_def w)
  have t: "removeFirst (jobId j) rest = rest"
    by (rule removeFirst_absent[OF d(1)])
  have l: "removeFirst (jobId j) (inProgressJobs s @ [j]) = inProgressJobs s"
    by (rule removeFirst_last[OF d(2)])
  show "waitingJobs (snd (processQueue cfg L s)) = tl (waitingJobs s)"
    by (cases rule: processQueue_cases[of cfg s L]) (use assms(1) t in \<open>simp_all add: w\<close>)
  show "inProgressJobs (snd (processQueue cfg L s)) = inProgressJobs s @ [hd (waitingJobs s)] \<or>
        inProgressJobs (snd (processQueue cfg L s)) = inProgressJobs s"
    by (cases rule: processQueue_cases[of cfg s L]) (use assms(1) d(1) l in \<open>simp_all add: w\<close>)
qed

lemma dispatch_started:
  assumes "dispatchable cfg s" "thrown L (startedOf (hd (waitingJobs s))) = None"
    "fn (hd (waitingJobs s)) = ReturnsPromise"
  shows "processQueue cfg L s =
     (None, (launched L (hd (waitingJobs s)) s)
        \<lparr>running := (running s)(jobId (hd (waitingJobs s)) \<mapsto> hd (waitingJobs s)),
         processing := False\<rparr>)"
  by (cases rule: processQueue_cases[of cfg s L]) (use assms in auto)

lemma step_lastId_mono: "lastId s \<le> lastId (step cfg L e s)"
proof (cases e)
  case (Add f hook)
  then show ?thesis
    by (cases "isFull cfg s") (simp_all add: add_full add_admits Let_def split: option.splits)
next
  case (Cancel i)
  then show ?thesis by (simp add: cancel_unfold Let_def split: option.splits)
next
  case (TimerFire i)
  have "lastId (snd (timerFired L t s)) = lastId s" for t
    by (cases "kind t")
       (simp_all add: timerFired_def queueTimeoutFired_def processingTimeoutFired_unfold Let_def
          split: option.splits)
  then show ?thesis using TimerFire by (simp split: option.splits)
next
  case (BodyDone i c)
  have "lastId (snd (bodySettled cfg L j c s0)) = lastId s0" for j s0
    by (cases c) (simp_all add: bodySettled_def Let_def split: option.splits)
  then show ?thesis using BodyDone by (simp split: option.splits)
next
  case Microtask
  have "lastId (runFinally cfg L j out s0) = lastId s0" for j out s0
    using processQueue_fields(1)[of cfg L "cleanup j s0"]
    by (cases "processQueue cfg L (cleanup j s0)") (auto simp: runFinally_def split: option.splits)
  then show ?thesis using Microtask by (simp split: list.splits)
next
  case (Tick n)
  then show ?thesis by simp
qed

lemma unsettled_before:
  assumes "\<forall>i < lastId (step cfg L e s). promise (step cfg L e s) i = None"
  shows "\<forall>i < lastId s. promise s i = None"
proof (intro allI impI)
  fix i assume i: "i < lastId s"
  show "promise s i = None"
  proof (rule ccontr)
    assume "promise s i \<noteq> None"
    then obtain out where "promise s i = Some out" by blast
    then have "promise (step cfg L e s) i = Some out" by (rule step_promise_mono)
    moreover have "i < lastId (step cfg L e s)"
      using i step_lastId_mono[of s cfg L e] by simp
    ultimately show False using assms by simp
  qed
qed

lemma add_lastId:
  "lastId (snd (add cfg L f hook s)) = (if isFull cfg s then lastId s else Suc (lastId s))"
  by (simp add: add_full add_admits Let_def split: option.splits)

lemma add_unsettled:
  assumes "inv cfg s" "\<not> isFull cfg s" "\<not> processing s"
    "\<forall>i < lastId (snd (add cfg L f hook s)). promise (snd (add cfg L f hook s)) i = None"
  shows "lastId (snd (add cfg L f hook s)) = Suc (lastId s) \<and>
         length (waitingJobs (snd (add cfg L f hook s))) + length (inProgressJobs (snd (add cfg L f hook s)))
           = Suc (length (waitingJobs s) + length (inProgressJobs s)) \<and>
         \<not> processing (snd (add cfg L f hook s))"
proof -
  let ?j = "newJob f hook s"
  let ?a = "admitted L ?j s"
  let ?p = "processQueue cfg L ?a"
  let ?n = "queue_new (jobId ?j) (length (inProgressJobs s)) (Suc (length (waitingJobs s)))"
  have q: "wfQueue cfg ?a"
    by (rule wfQueue_admitted) (use assms(1,2) in \<open>simp_all add: inv_def\<close>)
  have l: "lastId (snd (add cfg L f hook s)) = Suc (lastId s)"
    using assms(2) by (simp add: add_lastId)
  have u: "promise (snd (add cfg L f hook s)) k = None" if "k \<le> lastId s" for k
    using assms(4) l that by simp
  have t: "thrown L ?n = None"
  proof (rule ccontr)
    assume "thrown L ?n \<noteq> None"
    then obtain v where "thrown L ?n = Some v" by blast
    then have "promise (snd (add cfg L f hook s)) (lastId s) \<noteq> None"
      by (simp add: add_admits[OF assms(2)] Let_def settle_promise)
    then show False using u[of "lastId s"] by simp
  qed
  show ?thesis
  proof (cases rule: processQueue_cases[of cfg ?a L])
    case idle
    then show ?thesis using t assms(3) by (simp add: add_admits[OF assms(2)] Let_def)
  next
    case started
    then obtain k rest where w: "waitingJobs s @ [?j] = k # rest"
      by (cases "waitingJobs s @ [?j]") (auto simp: dispatchable_def)
    have "length rest = length (waitingJobs s)"
      using arg_cong[OF w, of length] by simp
    then show ?thesis
      using started t w by (simp add: add_admits[OF assms(2)] Let_def)
  next
    case (failed err)
    let ?k = "hd (waitingJobs ?a)"
    have lt: "jobId ?k < Suc (lastId s)" using hd_waiting_lt[OF q failed(1)] by simp
    have "promise (snd ?p) (jobId ?k) \<noteq> None"
      using failed(4) by (simp add: settle_promise)
    then have "promise (snd (add cfg L f hook s)) (jobId ?k) \<noteq> None"
      using failed(4) t by (simp add: add_admits[OF assms(2)] Let_def)
    then show ?thesis using u[of "jobId ?k"] lt by simp
  next
    case (stuck err v)
    then have "promise (snd (add cfg L f hook s)) (lastId s) \<noteq> None"
      using t by (simp add: add_admits[OF assms(2)] Let_def settle_promise)
    then show ?thesis using u[of "lastId s"] by simp
  qed
qed

lemma adds_unsettled:
  "\<forall>e \<in> set evs. isAdd e \<Longrightarrow> length evs \<le> maxTaskCount cfg \<Longrightarrow>
   \<forall>i < lastId (exec cfg L evs Queue). promise (exec cfg L evs Queue) i = None \<Longrightarrow>
   lastId (exec cfg L evs Queue) = length evs \<and>
   length (waitingJobs (exec cfg L evs Queue)) + length (inProgressJobs (exec cfg L evs Queue))
     = length evs \<and>
   \<not> processing (exec cfg L evs Queue)"
proof (induction evs rule: rev_induct)
  case Nil
  then show ?case by (simp add: Queue_def)
next
  case (snoc e evs)
  let ?s = "exec cfg L evs Queue"
  obtain f hook where e: "e = Add f hook" using snoc.prems(1) by (cases e) auto
  have u: "\<forall>i < lastId ?s. promise ?s i = None"
    by (rule unsettled_before[of cfg L e]) (use snoc.prems(3) in \<open>simp add: exec_snoc\<close>)
  have ih: "lastId ?s = length evs"
    "length (waitingJobs ?s) + length (inProgressJobs ?s) = length evs" "\<not> processing ?s"
    using snoc.IH snoc.prems(1,2) u by simp_all
  have nf: "\<not> isFull cfg ?s" using ih(2) snoc.prems(2) by (simp add: isFull_def)
  have "\<forall>i < lastId (snd (add cfg L f hook ?s)). promise (snd (add cfg L f hook ?s)) i = None"
    using snoc.prems(3) e by (simp add: exec_snoc)
  from add_unsettled[OF reachable_inv nf ih(3) this]
  show ?case using ih e by (simp add: exec_snoc)
qed




lemma calmState_prims [simp]:
  "calmState (notify L n s) = calmState s"
  "calmState (settle j out s) = calmState s"
  "calmState (hooked j s) = calmState s"
  "calmState (s\<lparr>processing := b\<rparr>) = calmState s"
  "calmState (s\<lparr>running := r\<rparr>) = calmState s"
  "calmState (s\<lparr>clock := c\<rparr>) = calmState s"
  "calmState (s\<lparr>reactions := rs\<rparr>) = calmState s"
  "calmState (s\<lparr>handle := h\<rparr>) = calmState s"
  by (simp_all add: calmState_def)















lemma calm_append: "calm (evs @ evs') \<longleftrightarrow> calm evs \<and> calm evs'"
  by (auto simp: calm_def)



lemma armedAll_But: "armedAll s \<Longrightarrow> armedBut k s"
  by (simp add: armedAll_def armedBut_def)

lemma armedBut_settle: "armedBut (jobId j) s \<Longrightarrow> armedAll (settle j out s)"
  by (auto simp: armedAll_def armedBut_def settle_promise split: if_splits)

lemma armedAll_settle: "armedAll s \<Longrightarrow> armedAll (settle j out s)"
  by (rule armedBut_settle[OF armedAll_But])

lemma armedBut_steps [simp]:
  "armedBut k (notify L n s) = armedBut k s"
  "armedBut k (s\<lparr>processing := b\<rparr>) = armedBut k s"
  "armedBut k (s\<lparr>running := r\<rparr>) = armedBut k s"
  "armedBut k (s\<lparr>issued := x\<rparr>) = armedBut k s"
  "armedBut k (s\<lparr>reactions := rs\<rparr>) = armedBut k s"
  "armedBut k (s\<lparr>handle := h\<rparr>) = armedBut k s"
  "armedBut k (s\<lparr>clock := c\<rparr>) = armedBut k s"
  "armedBut k (hooked j s) = armedBut k s"
  by (simp_all add: armedBut_def)

lemma armedAll_steps [simp]:
  "armedAll (notify L n s) = armedAll s"
  "armedAll (s\<lparr>processing := b\<rparr>) = armedAll s"
  "armedAll (s\<lparr>running := r\<rparr>) = armedAll s"
  "armedAll (s\<lparr>issued := x\<rparr>) = armedAll s"
  "armedAll (s\<lparr>reactions := rs\<rparr>) = armedAll s"
  "armedAll (s\<lparr>handle := h\<rparr>) = armedAll s"
  "armedAll (s\<lparr>clock := c\<rparr>) = armedAll s"
  "armedAll (hooked j s) = armedAll s"
  by (simp_all add: armedAll_def)

lemma armedBut_drop:
  "armedBut k s \<Longrightarrow> armedBut k (removeTimeout k s)"
  "armedBut (jobId j) s \<Longrightarrow> armedBut (jobId j) (cleanup j s)"
  "armedBut (jobId j) s \<Longrightarrow> armedBut (jobId j) (withdrawn j s)"
  "armedBut k s \<Longrightarrow> armedBut k (s\<lparr>timeouts := (timeouts s)(k \<mapsto> t)\<rparr>)"
  by (simp_all add: armedBut_def)

lemma armedAll_cleanup:
  "armedAll s \<Longrightarrow> promise s (jobId j) \<noteq> None \<Longrightarrow> armedAll (cleanup j s)"
  by (auto simp: armedAll_def)

lemma armedAll_launched: "armedAll s \<Longrightarrow> armedAll (launched L j s)"
  by (auto simp: armedAll_def)

lemma armedAll_admitted: "armedAll s \<Longrightarrow> jobId j = lastId s \<Longrightarrow> armedAll (admitted L j s)"
  by (auto simp: armedAll_def less_Suc_eq)

lemma quiet_processQueue [simp]: "quiet L \<Longrightarrow> fst (processQueue cfg L s) = None"
  by (cases rule: processQueue_cases[of cfg s L]) simp_all

lemma processQueue_armedAll:
  assumes "armedAll s"
  shows "armedAll (snd (processQueue cfg L s))"
proof (cases rule: processQueue_cases[of cfg s L])
  case idle
  then show ?thesis using assms by simp
next
  case started
  then show ?thesis using armedAll_launched[OF assms] by simp
next
  case (failed err)
  let ?j = "hd (waitingJobs s)"
  let ?t = "settle ?j (Rejected (Raised err)) (notify L (failureOf ?j err (launched L ?j s)) (launched L ?j s))"
  have "armedAll ?t" using armedAll_launched[OF assms, of L ?j] by (simp add: armedAll_settle)
  moreover have "promise ?t (jobId ?j) \<noteq> None" by (simp add: settle_promise)
  ultimately show ?thesis using failed by (simp add: armedAll_cleanup)
next
  case (stuck err v)
  then show ?thesis using armedAll_launched[OF assms] by simp
qed

lemma processQueue_quiet_processing:
  "quiet L \<Longrightarrow> \<not> processing s \<Longrightarrow> \<not> processing (snd (processQueue cfg L s))"
  by (cases rule: processQueue_cases[of cfg s L]) simp_all

lemma queuedAll_settle: "queuedAll s \<Longrightarrow> queuedAll (settle j out s)"
  by (auto simp: queuedAll_def settle_promise reactionIds_settle split: if_splits)

lemma queuedAll_steps [simp]:
  "queuedAll (notify L n s) = queuedAll s"
  "queuedAll (removeTimeout i s) = queuedAll s"
  "queuedAll (cleanup j s) = queuedAll s"
  "queuedAll (withdrawn j s) = queuedAll s"
  "queuedAll (launched L j s) = queuedAll s"
  "queuedAll (admitted L j s) = queuedAll s"
  "queuedAll (s\<lparr>processing := b\<rparr>) = queuedAll s"
  "queuedAll (s\<lparr>running := r\<rparr>) = queuedAll s"
  "queuedAll (s\<lparr>issued := x\<rparr>) = queuedAll s"
  "queuedAll (s\<lparr>timeouts := t\<rparr>) = queuedAll s"
  "queuedAll (s\<lparr>clock := c\<rparr>) = queuedAll s"
  "queuedAll (hooked j s) = queuedAll s"
  by (simp_all add: queuedAll_def reactionIds_def)

lemma processQueue_queuedAll: "queuedAll s \<Longrightarrow> queuedAll (snd (processQueue cfg L s))"
  by (cases rule: processQueue_cases[of cfg s L]) (simp_all add: queuedAll_settle)

lemma passedOn_settle: "passedOn s \<Longrightarrow> passedOn (settle j out s)"
  by (auto simp: passedOn_def settle_promise)

lemma passedOn_steps [simp]:
  "passedOn (notify L n s) = passedOn s"
  "passedOn (removeTimeout i s) = passedOn s"
  "passedOn (cleanup j s) = passedOn s"
  "passedOn (withdrawn j s) = passedOn s"
  "passedOn (launched L j s) = passedOn s"
  "passedOn (admitted L j s) = passedOn s"
  "passedOn (s\<lparr>processing := b\<rparr>) = passedOn s"
  "passedOn (s\<lparr>running := r\<rparr>) = passedOn s"
  "passedOn (s\<lparr>issued := x\<rparr>) = passedOn s"
  "passedOn (s\<lparr>timeouts := t\<rparr>) = passedOn s"
  "passedOn (s\<lparr>clock := c\<rparr>) = passedOn s"
  "passedOn (s\<lparr>reactions := rs\<rparr>) = passedOn s"
  "passedOn (hooked j s) = passedOn s"
  by (simp_all add: passedOn_def)

lemma processQueue_passedOn: "passedOn s \<Longrightarrow> passedOn (snd (processQueue cfg L s))"
  by (cases rule: processQueue_cases[of cfg s L]) (simp_all add: passedOn_settle)

lemma queuedBut_settle: "queuedBut k s \<Longrightarrow> queuedBut k (settle j out s)"
  by (auto simp: queuedBut_def settle_promise reactionIds_settle split: if_splits)

lemma queuedBut_steps [simp]:
  "queuedBut k (notify L n s) = queuedBut k s"
  "queuedBut k (cleanup j s) = queuedBut k s"
  "queuedBut k (launched L j s) = queuedBut k s"
  "queuedBut k (s\<lparr>processing := b\<rparr>) = queuedBut k s"
  "queuedBut k (s\<lparr>running := r\<rparr>) = queuedBut k s"
  by (simp_all add: queuedBut_def reactionIds_def)

lemma processQueue_queuedBut: "queuedBut k s \<Longrightarrow> queuedBut k (snd (processQueue cfg L s))"
  by (cases rule: processQueue_cases[of cfg s L]) (simp_all add: queuedBut_settle)

lemma queuedBut_handle:
  "queuedBut k s \<Longrightarrow> queuedAll (s\<lparr>handle := (handle s)(k \<mapsto> out)\<rparr>)"
  by (auto simp: queuedBut_def queuedAll_def reactionIds_def)

lemma queuedAll_pop:
  "queuedAll s \<Longrightarrow> reactions s = (j, out) # rest \<Longrightarrow> queuedBut (jobId j) (s\<lparr>reactions := rest\<rparr>)"
  by (auto simp: queuedBut_def queuedAll_def reactionIds_def)

lemma add_quiet:
  assumes "quiet L" "\<not> isFull cfg s"
  shows "snd (add cfg L f hook s) =
     (snd (processQueue cfg L (admitted L (newJob f hook s) s)))
       \<lparr>issued := (issued s)(lastId s \<mapsto> newJob f hook s)\<rparr>"
  using assms by (simp add: add_admits Let_def)

lemma add_qinv:
  assumes "quiet L" "qinv s"
  shows "qinv (snd (add cfg L f hook s))"
proof (cases "isFull cfg s")
  case True
  then show ?thesis using assms by (simp add: add_full qinv_def)
next
  case False
  let ?a = "admitted L (newJob f hook s) s"
  have "queuedAll (snd (processQueue cfg L ?a))"
    using assms(2) by (simp add: qinv_def processQueue_queuedAll)
  moreover have "passedOn (snd (processQueue cfg L ?a))"
    using assms(2) by (simp add: qinv_def processQueue_passedOn)
  moreover have "\<not> processing (snd (processQueue cfg L ?a))"
    using assms by (simp add: qinv_def processQueue_quiet_processing)
  ultimately show ?thesis by (simp add: add_quiet[OF assms(1) False] qinv_def)
qed

lemma add_armedAll:
  assumes "quiet L" "armedAll s"
  shows "armedAll (snd (add cfg L f hook s))"
proof (cases "isFull cfg s")
  case True
  then show ?thesis using assms by (simp add: add_full)
next
  case False
  let ?a = "admitted L (newJob f hook s) s"
  have "armedAll ?a" using assms(2) by (simp add: armedAll_admitted)
  then have "armedAll (snd (processQueue cfg L ?a))" by (rule processQueue_armedAll)
  then show ?thesis by (simp add: add_quiet[OF assms(1) False])
qed

lemma cancel_qinv:
  assumes "quiet L" "qinv s"
  shows "qinv (snd (cancel L h s))"
  using assms
  by (cases h)
     (simp_all add: cancel_unfold qinv_def queuedAll_settle passedOn_settle split: option.splits)

lemma cancel_armedAll:
  assumes "quiet L" "armedAll s"
  shows "armedAll (snd (cancel L h s))"
proof (cases h)
  case (RejectedHandle w p)
  then show ?thesis using assms by simp
next
  case (JobHandle j)
  have "armedBut (jobId j) (withdrawn j s)"
    using assms(2) by (simp add: armedAll_But armedBut_drop)
  then have "armedAll (settle j out (notify L n (withdrawn j s)))" for out n
    by (simp add: armedBut_settle)
  then show ?thesis
    using assms JobHandle by (simp add: cancel_unfold split: option.splits)
qed

lemma timerFired_qinv:
  assumes "quiet L" "qinv s"
  shows "qinv (snd (timerFired L t s))"
  using assms
  by (cases "kind t")
     (simp_all add: timerFired_def queueTimeoutFired_def processingTimeoutFired_unfold Let_def
        qinv_def queuedAll_settle passedOn_settle split: option.splits)

lemma timerFired_armedAll:
  assumes "quiet L" "armedAll s" "kind t = Execution \<longrightarrow> hookThrown (target t) = None"
  shows "armedAll (snd (timerFired L t s))"
proof -
  let ?j = "target t"
  let ?s1 = "s\<lparr>timeouts := (timeouts s)(jobId ?j \<mapsto> Timer (kind t) False ?j)\<rparr>"
  have b: "armedBut (jobId ?j) ?s1"
    using assms(2) by (simp add: armedAll_But armedBut_drop)
  have "armedAll (settle ?j out (removeTimeout (jobId ?j) (notify L n ?s1)))" for out n
    by (rule armedBut_settle) (use b in \<open>simp add: armedBut_drop\<close>)
  moreover have "armedAll (settle ?j out (withdrawn ?j (notify L n ?s1)))" for out n
    by (rule armedBut_settle) (use b in \<open>simp add: armedBut_drop\<close>)
  ultimately show ?thesis
    using assms(1,3)
    by (cases "kind t")
       (simp_all add: timerFired_def queueTimeoutFired_def processingTimeoutFired_unfold Let_def)
qed

lemma bodySettled_qinv:
  assumes "quiet L" "qinv s"
  shows "qinv (snd (bodySettled cfg L j c s))"
proof -
  have "qinv (snd (processQueue cfg L (settle j out (cleanup j (notify L n s)))))" for out n
  proof -
    let ?t = "settle j out (cleanup j (notify L n s))"
    have "queuedAll (snd (processQueue cfg L ?t))"
      using assms(2) by (simp add: qinv_def processQueue_queuedAll queuedAll_settle)
    moreover have "passedOn (snd (processQueue cfg L ?t))"
      using assms(2) by (simp add: qinv_def processQueue_passedOn passedOn_settle)
    moreover have "\<not> processing (snd (processQueue cfg L ?t))"
      using assms by (simp add: qinv_def processQueue_quiet_processing)
    ultimately show ?thesis by (simp add: qinv_def)
  qed
  then show ?thesis using assms(1) by (cases c) (simp_all add: bodySettled_def Let_def)
qed

lemma bodySettled_armedAll:
  assumes "quiet L" "armedAll s"
  shows "armedAll (snd (bodySettled cfg L j c s))"
proof -
  have "armedAll (snd (processQueue cfg L (settle j out (cleanup j (notify L n s)))))" for out n
  proof -
    have "armedBut (jobId j) (cleanup j (notify L n s))"
      using assms(2) by (simp add: armedAll_But armedBut_drop)
    then have "armedAll (settle j out (cleanup j (notify L n s)))" by (rule armedBut_settle)
    then show ?thesis by (rule processQueue_armedAll)
  qed
  then show ?thesis using assms(1) by (cases c) (simp_all add: bodySettled_def Let_def)
qed

lemma runFinally_quiet:
  "quiet L \<Longrightarrow> runFinally cfg L j out s =
     (snd (processQueue cfg L (cleanup j s)))\<lparr>handle := (handle s)(jobId j \<mapsto> out)\<rparr>"
  using quiet_processQueue[of L cfg "cleanup j s"] processQueue_fields(2)[of cfg L "cleanup j s"]
  by (cases "processQueue cfg L (cleanup j s)") (auto simp: runFinally_def)

lemma runFinally_qinv:
  assumes "quiet L" "qinv s" "wfOnce s" "reactions s = (j, out) # rest"
  shows "qinv (runFinally cfg L j out (s\<lparr>reactions := rest\<rparr>))"
proof -
  let ?s0 = "s\<lparr>reactions := rest\<rparr>"
  let ?p = "snd (processQueue cfg L (cleanup j ?s0))"
  have pj: "promise s (jobId j) = Some out" using assms(3,4) by (auto simp: wfOnce_def)
  have "queuedBut (jobId j) (cleanup j ?s0)"
    using queuedAll_pop[OF _ assms(4)] assms(2) by (simp add: qinv_def)
  then have "queuedBut (jobId j) ?p" by (rule processQueue_queuedBut)
  then have q: "queuedAll (?p\<lparr>handle := (handle ?p)(jobId j \<mapsto> out)\<rparr>)"
    by (rule queuedBut_handle)
  have "passedOn ?p" using assms(2) by (simp add: qinv_def processQueue_passedOn)
  moreover have "promise ?p (jobId j) = Some out"
    by (rule processQueue_promise_mono) (simp add: pj)
  ultimately have o: "passedOn (?p\<lparr>handle := (handle ?p)(jobId j \<mapsto> out)\<rparr>)"
    by (simp add: passedOn_def)
  have b: "\<not> processing ?p" using assms(1,2) by (simp add: qinv_def processQueue_quiet_processing)
  show ?thesis
    using q o b by (simp add: runFinally_quiet[OF assms(1)] qinv_def)
qed

lemma runFinally_armedAll:
  assumes "quiet L" "armedAll s" "wfOnce s" "reactions s = (j, out) # rest"
  shows "armedAll (runFinally cfg L j out (s\<lparr>reactions := rest\<rparr>))"
proof -
  let ?s0 = "s\<lparr>reactions := rest\<rparr>"
  have pj: "promise s (jobId j) = Some out" using assms(3,4) by (auto simp: wfOnce_def)
  have "armedAll (cleanup j ?s0)"
    by (rule armedAll_cleanup) (use assms(2) pj in simp_all)
  then have "armedAll (snd (processQueue cfg L (cleanup j ?s0)))" by (rule processQueue_armedAll)
  then show ?thesis by (simp add: runFinally_quiet[OF assms(1)])
qed

lemma step_qinv:
  assumes "quiet L" "inv cfg s" "qinv s"
  shows "qinv (step cfg L e s)"
proof (cases e)
  case (Add f hook)
  then show ?thesis using add_qinv[OF assms(1,3)] by simp
next
  case (Cancel i)
  then show ?thesis using assms(3) cancel_qinv[OF assms(1,3)] by (simp split: option.splits)
next
  case (TimerFire i)
  then show ?thesis using assms(3) timerFired_qinv[OF assms(1,3)] by (simp split: option.splits)
next
  case (BodyDone i c)
  have "qinv (s\<lparr>running := x\<rparr>)" for x using assms(3) by (simp add: qinv_def)
  then show ?thesis
    using assms(3) BodyDone bodySettled_qinv[OF assms(1)] by (simp split: option.splits)
next
  case Microtask
  have "wfOnce s" using assms(2) by (simp add: inv_def wfRun_def)
  then show ?thesis
    using assms(3) Microtask runFinally_qinv[OF assms(1,3)] by (auto split: list.splits)
next
  case (Tick n)
  then show ?thesis using assms(3) by (simp add: qinv_def queuedAll_def passedOn_def reactionIds_def)
qed

lemma step_armedAll:
  assumes "quiet L" "inv cfg s" "armedAll s" "calmTimers s"
  shows "armedAll (step cfg L e s)"
proof (cases e)
  case (Add f hook)
  then show ?thesis using add_armedAll[OF assms(1,3)] by simp
next
  case (Cancel i)
  then show ?thesis using assms(3) cancel_armedAll[OF assms(1,3)] by (simp split: option.splits)
next
  case (TimerFire i)
  show ?thesis
  proof (cases "timeouts s i")
    case None
    then show ?thesis using assms(3) TimerFire by simp
  next
    case (Some t)
    then have "kind t = Execution \<longrightarrow> hookThrown (target t) = None"
      using assms(4) by (simp add: calmTimers_def)
    then show ?thesis
      using assms(3) TimerFire Some timerFired_armedAll[OF assms(1,3)] by simp
  qed
next
  case (BodyDone i c)
  then show ?thesis
    using assms(3) bodySettled_armedAll[OF assms(1), of "s\<lparr>running := (running s)(i := None)\<rparr>"]
    by (simp split: option.splits)
next
  case Microtask
  have "wfOnce s" using assms(2) by (simp add: inv_def wfRun_def)
  then show ?thesis
    using assms(3) Microtask runFinally_armedAll[OF assms(1,3)] by (auto split: list.splits)
next
  case (Tick n)
  then show ?thesis using assms(3) by simp
qed

lemma qinv_Queue: "qinv Queue"
  by (simp add: qinv_def queuedAll_def passedOn_def Queue_def)

lemma reachable_qinv: "quiet L \<Longrightarrow> qinv (exec cfg L evs Queue)"
proof (induction evs rule: rev_induct)
  case Nil
  then show ?case by (simp add: qinv_Queue)
next
  case (snoc e evs)
  then show ?case using step_qinv[OF _ reachable_inv] by (simp add: exec_snoc)
qed


lemma exec_Cons: "exec cfg L (e # evs) s = exec cfg L evs (step cfg L e s)"
  by (simp add: exec_def)

lemma processQueue_reactions:
  "\<exists>extra. reactions (snd (processQueue cfg L s)) = reactions s @ extra"
  by (cases rule: processQueue_cases[of cfg s L]) (simp_all add: settle_reactions)

lemma microtask_reactions:
  assumes "reactions s = (j, out) # rest"
  shows "\<exists>extra. reactions (step cfg L Microtask s) = rest @ extra"
proof -
  obtain extra where "reactions (snd (processQueue cfg L (cleanup j (s\<lparr>reactions := rest\<rparr>))))
      = rest @ extra"
    using processQueue_reactions[of cfg L "cleanup j (s\<lparr>reactions := rest\<rparr>)"] by auto
  then show ?thesis
    using assms
    by (cases "processQueue cfg L (cleanup j (s\<lparr>reactions := rest\<rparr>))")
       (auto simp: runFinally_def split: option.splits)
qed

lemma microtask_handle:
  assumes "reactions s = (j, out) # rest"
  shows "handle (step cfg L Microtask s) (jobId j) \<noteq> None"
  using assms by (simp add: runFinally_handle)

lemma drain:
  "inv cfg s \<Longrightarrow>
   handle s i \<noteq> None \<or> (\<exists>k<n. k < length (reactions s) \<and> jobId (fst (reactions s ! k)) = i) \<Longrightarrow>
   handle (exec cfg L (replicate n Microtask) s) i \<noteq> None"
proof (induction n arbitrary: s)
  case 0
  then show ?case by simp
next
  case (Suc n)
  let ?s1 = "step cfg L Microtask s"
  have i1: "inv cfg ?s1" by (rule step_inv[OF Suc.prems(1)])
  have "handle ?s1 i \<noteq> None \<or>
        (\<exists>k<n. k < length (reactions ?s1) \<and> jobId (fst (reactions ?s1 ! k)) = i)"
  proof (cases "handle s i")
    case (Some out)
    then show ?thesis using step_handle_stable[OF Suc.prems(1) Some, of L Microtask] by simp
  next
    case None
    then obtain k where k: "k < Suc n" "k < length (reactions s)" "jobId (fst (reactions s ! k)) = i"
      using Suc.prems(2) by auto
    then obtain j out rest where r: "reactions s = (j, out) # rest"
      by (cases "reactions s") auto
    show ?thesis
    proof (cases k)
      case 0
      then have "jobId j = i" using k(3) r by simp
      then show ?thesis using microtask_handle[OF r, of cfg L] by auto
    next
      case (Suc k')
      obtain extra where e: "reactions ?s1 = rest @ extra"
        using microtask_reactions[OF r, of cfg L] by auto
      have "k' < length rest" using k(2) r Suc by simp
      moreover have "jobId (fst (rest ! k')) = i" using k(3) r Suc by simp
      ultimately have "k' < n \<and> k' < length (reactions ?s1) \<and> jobId (fst (reactions ?s1 ! k')) = i"
        using k(1) Suc e by (simp add: nth_append)
      then show ?thesis by blast
    qed
  qed
  from Suc.IH[OF i1 this] show ?case by (simp add: exec_Cons)
qed


lemma timerFired_quiet:
  assumes "quiet L" "kind t = Execution \<longrightarrow> hookThrown (target t) = None"
  shows "snd (timerFired L t s) =
     (case kind t of
        QueueWait \<Rightarrow>
          settle (target t) (Rejected (QueueTimeout (addedToTheQueueAt (target t))))
            (removeTimeout (jobId (target t))
               (notify L (queue_timeout (jobId (target t)) (addedToTheQueueAt (target t)))
                  (s\<lparr>timeouts := (timeouts s)(jobId (target t) \<mapsto> Timer (kind t) False (target t))\<rparr>)))
      | Execution \<Rightarrow>
          settle (target t) (Rejected JobTimeout)
            (withdrawn (target t)
               (notify L (job_timeout (jobId (target t)) (addedToTheQueueAt (target t))
                          (startedProcessingAt s (jobId (target t))))
                  (s\<lparr>timeouts := (timeouts s)(jobId (target t) \<mapsto> Timer (kind t) False (target t))\<rparr>))))"
  using assms
  by (cases "kind t")
     (simp_all add: timerFired_def queueTimeoutFired_def processingTimeoutFired_unfold Let_def)


lemma timerFire_reactions:
  "length (reactions (step cfg L (TimerFire i) s)) \<le> Suc (length (reactions s))"
proof -
  have "length (reactions (snd (timerFired L t s))) \<le> Suc (length (reactions s))" for t
    by (cases "kind t")
       (simp_all add: timerFired_def queueTimeoutFired_def processingTimeoutFired_unfold Let_def
          settle_reactions split: option.splits)
  then show ?thesis by (simp split: option.splits)
qed


lemma processQueue_starved: "concurrency cfg = 0 \<Longrightarrow> processQueue cfg L s = (None, s)"
  by (simp add: processQueue_def)

lemma starved_hooked [simp]: "starved (hooked j s) = starved s"
  by (simp add: starved_def waitingIds_def dispatchOrder_def)

lemma starved_calmTimers: "starved s \<Longrightarrow> calmTimers s"
  by (auto simp: starved_def calmTimers_def)

lemma add_starved:
  assumes "concurrency cfg = 0" "quiet L" "wfReg s" "starved s"
  shows "starved (snd (add cfg L f hook s))"
proof (cases "isFull cfg s")
  case True
  then show ?thesis
    using assms
    by (simp add: add_full starved_def waitingIds_def orders_notify dispatchOrder_def)
next
  case False
  have "\<forall>i t. timeouts s i = Some t \<longrightarrow> i \<noteq> lastId s"
    using assms(3) unfolding wfReg_def by (metis less_irrefl)
  moreover have "\<forall>i out. promise s i = Some out \<longrightarrow> i \<noteq> lastId s"
    using assms(3) unfolding wfReg_def by (metis less_irrefl option.distinct(1))
  ultimately show ?thesis
    using assms(1,2,4)
    by (auto simp: add_quiet[OF assms(2) False] processQueue_starved starved_def waitingIds_def
          less_Suc_eq)
qed

lemma waitingIds_removeFirst:
  "i \<in> set (waitingIds s) \<Longrightarrow> i \<noteq> k \<Longrightarrow> i \<in> set (map jobId (removeFirst k (waitingJobs s)))"
  by (simp add: waitingIds_def map_removeFirst)

lemma cancel_starved:
  assumes "quiet L" "starved s"
  shows "starved (snd (cancel L (JobHandle j) s))"
proof -
  have w: "\<forall>i < lastId s. i \<noteq> jobId j \<longrightarrow> promise s i = None \<longrightarrow>
      i \<in> set (map jobId (removeFirst (jobId j) (waitingJobs s)))"
    using assms(2) waitingIds_removeFirst[of _ s "jobId j"] by (auto simp: starved_def)
  show ?thesis
  proof (cases "hookThrown j")
    case (Some v)
    then show ?thesis using assms(2) by (simp add: cancel_unfold)
  next
    case None
    then show ?thesis
      using assms w
      by (auto simp: cancel_unfold starved_def waitingIds_def settle_promise dispatchOrder_def
            split: if_splits)
  qed
qed

lemma timerFired_starved:
  assumes "quiet L" "starved s" "timeouts s i = Some t" "jobId (target t) = i"
  shows "starved (snd (timerFired L t s))"
proof -
  have k: "kind t = QueueWait" "issued s i = Some (target t)"
    using assms(2,3) by (auto simp: starved_def)
  show ?thesis
    using assms k
    by (auto simp: timerFired_quiet[OF assms(1)] starved_def waitingIds_def settle_promise
          dispatchOrder_def split: if_splits)
qed

lemma starved_waiting_left:
  assumes "starved s" "promise s k \<noteq> None" "i < lastId s" "promise s i = None"
  shows "i \<in> jobId ` set (removeFirst k (waitingJobs s))"
proof -
  have "i \<in> set (waitingIds s)" using assms(1,3,4) by (simp add: starved_def)
  moreover have "i \<noteq> k" using assms(2,4) by auto
  ultimately show ?thesis using waitingIds_removeFirst[of i s k] by simp
qed

lemma runFinally_starved:
  assumes "concurrency cfg = 0" "quiet L" "starved s" "promise s (jobId j) \<noteq> None"
  shows "starved (runFinally cfg L j out (s\<lparr>reactions := rest\<rparr>))"
  using assms(1-3) starved_waiting_left[OF assms(3,4)]
  by (auto simp: runFinally_quiet[OF assms(2)] processQueue_starved starved_def waitingIds_def
        dispatchOrder_def)

lemma step_starved:
  assumes "concurrency cfg = 0" "quiet L" "inv cfg s" "starved s"
  shows "starved (step cfg L e s)"
proof (cases e)
  case (Add f hook)
  then show ?thesis using add_starved[OF assms(1,2) _ assms(4)] assms(3) by (simp add: inv_def)
next
  case (Cancel i)
  then show ?thesis using assms(4) cancel_starved[OF assms(2,4)] by (simp split: option.splits)
next
  case (TimerFire i)
  show ?thesis
  proof (cases "timeouts s i")
    case None
    then show ?thesis using assms(4) TimerFire by simp
  next
    case (Some t)
    then have "jobId (target t) = i" using assms(3) by (auto simp: inv_def wfReg_def)
    then show ?thesis
      using assms(4) TimerFire Some timerFired_starved[OF assms(2,4) Some] by simp
  qed
next
  case (BodyDone i c)
  then show ?thesis using assms(4) by (simp add: starved_def)
next
  case Microtask
  show ?thesis
  proof (cases "reactions s")
    case Nil
    then show ?thesis using assms(4) Microtask by simp
  next
    case (Cons r rest)
    obtain j out where r: "r = (j, out)" by (cases r)
    have "wfOnce s" using assms(3) by (simp add: inv_def wfRun_def)
    then have "promise s (jobId j) \<noteq> None" using Cons r by (auto simp: wfOnce_def)
    then show ?thesis
      using Microtask Cons r runFinally_starved[OF assms(1,2,4)] by simp
  qed
next
  case (Tick n)
  then show ?thesis using assms(4) by (simp add: starved_def waitingIds_def dispatchOrder_def)
qed

lemma reachable_starved:
  assumes "concurrency cfg = 0" "quiet L"
  shows "starved (exec cfg L evs Queue)"
proof (induction evs rule: rev_induct)
  case Nil
  then show ?case by (simp add: starved_def Queue_def waitingIds_def dispatchOrder_def)
next
  case (snoc e evs)
  then show ?case using step_starved[OF assms reachable_inv] by (simp add: exec_snoc)
qed

lemma starved_armedAll:
  assumes "concurrency cfg = 0" "quiet L"
  shows "armedAll (exec cfg L evs Queue)"
proof (induction evs rule: rev_induct)
  case Nil
  then show ?case by (simp add: armedAll_def Queue_def)
next
  case (snoc e evs)
  have "calmTimers (exec cfg L evs Queue)"
    by (rule starved_calmTimers[OF reachable_starved[OF assms]])
  from step_armedAll[OF assms(2) reachable_inv snoc.IH this]
  show ?case by (simp add: exec_snoc)
qed

lemma settle_other:
  "promise (settle j out s) i = Some x \<Longrightarrow> out \<noteq> x \<Longrightarrow> promise s i = Some x"
  by (auto simp: settle_promise split: if_splits)

lemma processQueue_cancelled:
  "promise (snd (processQueue cfg L s)) i = Some (Rejected JobCancelled) \<Longrightarrow>
   promise s i = Some (Rejected JobCancelled)"
  by (cases rule: processQueue_cases[of cfg s L]) (auto dest: settle_other)

lemma step_cancelled:
  assumes "inv cfg s" "promise (step cfg L e s) i = Some (Rejected JobCancelled)"
  shows "promise s i = Some (Rejected JobCancelled) \<or> e = Cancel i"
proof (cases e)
  case (Add f hook)
  then show ?thesis
    using assms(2)
    by (cases "isFull cfg s")
       (auto simp: add_full add_admits Let_def split: option.splits
          dest!: settle_other processQueue_cancelled)
next
  case (Cancel k)
  show ?thesis
  proof (cases "issued s k")
    case None
    then show ?thesis using assms(2) Cancel by simp
  next
    case (Some j)
    then have "jobId j = k" using assms(1) by (auto simp: inv_def wfReg_def)
    then show ?thesis
      using assms(2) Cancel Some
      by (auto simp: cancel_unfold Let_def settle_promise split: option.splits if_splits)
  qed
next
  case (TimerFire k)
  have "promise (snd (timerFired L t s)) i = Some (Rejected JobCancelled) \<Longrightarrow>
        promise s i = Some (Rejected JobCancelled)" for t
    by (cases "kind t")
       (auto simp: timerFired_def queueTimeoutFired_def processingTimeoutFired_unfold Let_def
          split: option.splits dest!: settle_other)
  then show ?thesis using assms(2) TimerFire by (auto split: option.splits if_splits)
next
  case (BodyDone k c)
  have "promise (snd (bodySettled cfg L j c s0)) i = Some (Rejected JobCancelled) \<Longrightarrow>
        promise s0 i = Some (Rejected JobCancelled)" for j s0
    by (cases c)
       (auto simp: bodySettled_def Let_def split: option.splits
          dest!: processQueue_cancelled settle_other)
  from this[of _ "s\<lparr>running := (running s)(k := None)\<rparr>"]
  show ?thesis using assms(2) BodyDone by (auto split: option.splits)
next
  case Microtask
  have "promise (runFinally cfg L j out s0) i = Some (Rejected JobCancelled) \<Longrightarrow>
        promise s0 i = Some (Rejected JobCancelled)" for j out s0
    using processQueue_cancelled[of cfg L "cleanup j s0" i]
    by (cases "processQueue cfg L (cleanup j s0)") (auto simp: runFinally_def split: option.splits)
  from this[of _ _ "s\<lparr>reactions := tl (reactions s)\<rparr>"]
  show ?thesis using assms(2) Microtask by (auto split: list.splits)
next
  case (Tick n)
  then show ?thesis using assms(2) by simp
qed

lemma cancelled_by_caller:
  "promise (exec cfg L evs Queue) i = Some (Rejected JobCancelled) \<Longrightarrow> Cancel i \<in> set evs"
proof (induction evs rule: rev_induct)
  case Nil
  then show ?case by (simp add: Queue_def)
next
  case (snoc e evs)
  then show ?case
    using step_cancelled[OF reachable_inv[of cfg L evs], of L e i]
    by (auto simp: exec_snoc)
qed

lemma exec_promise_mono:
  "promise s i = Some out \<Longrightarrow> promise (exec cfg L evs s) i = Some out"
  by (induction evs rule: rev_induct) (simp_all add: exec_snoc step_promise_mono)

lemma queue_timer_fires:
  assumes "quiet L" "timeouts s i = Some t" "armed t" "kind t = QueueWait" "jobId (target t) = i"
    "promise s i = None"
  shows "promise (step cfg L (TimerFire i) s) i
           = Some (Rejected (QueueTimeout (addedToTheQueueAt (target t))))"
  using assms by (simp add: timerFired_quiet[OF assms(1)] settle_promise)

lemma handle_catches_up:
  assumes "quiet L" "promise (exec cfg L evs Queue) i = Some out"
    "length (reactions (exec cfg L evs Queue)) \<le> n"
  shows "handle (exec cfg L (evs @ replicate n Microtask) Queue) i = Some out"
proof -
  let ?s = "exec cfg L evs Queue"
  let ?s' = "exec cfg L (evs @ replicate n Microtask) Queue"
  have i0: "inv cfg ?s" by (rule reachable_inv)
  have q0: "qinv ?s" by (rule reachable_qinv[OF assms(1)])
  have "handle ?s i \<noteq> None \<or> (\<exists>k<n. k < length (reactions ?s) \<and> jobId (fst (reactions ?s ! k)) = i)"
  proof (cases "handle ?s i")
    case None
    then have "i \<in> set (reactionIds ?s)" using q0 assms(2) by (auto simp: qinv_def queuedAll_def)
    then obtain k where "k < length (reactions ?s)" "jobId (fst (reactions ?s ! k)) = i"
      by (auto simp: reactionIds_def in_set_conv_nth)
    then show ?thesis using assms(3) by (intro disjI2 exI[of _ k]) simp
  qed simp
  from drain[OF i0 this, of L]
  have "handle ?s' i \<noteq> None" by (simp add: exec_append)
  moreover have "promise ?s' i = Some out"
    using exec_promise_mono[OF assms(2)] by (simp add: exec_append)
  moreover have "passedOn ?s'"
    using reachable_qinv[OF assms(1), of cfg "evs @ replicate n Microtask"] by (simp add: qinv_def)
  ultimately show ?thesis by (auto simp: passedOn_def)
qed

lemma handle_follows:
  assumes "quiet L"
    "promise (step cfg L (TimerFire i) (exec cfg L evs Queue)) i = Some out"
  shows "handle (exec cfg L
           (evs @ TimerFire i # replicate (Suc (length (reactions (exec cfg L evs Queue)))) Microtask)
           Queue) i = Some out"
proof -
  let ?n = "Suc (length (reactions (exec cfg L evs Queue)))"
  have p: "promise (exec cfg L (evs @ [TimerFire i]) Queue) i = Some out"
    using assms(2) by (simp add: exec_snoc)
  have l: "length (reactions (exec cfg L (evs @ [TimerFire i]) Queue)) \<le> ?n"
    using timerFire_reactions[of cfg L i "exec cfg L evs Queue"] by (simp add: exec_snoc)
  from handle_catches_up[OF assms(1) p l] show ?thesis by simp
qed


lemma handler_issued [simp]:
  "issued (snd (cancel L h s)) = issued s"
  "issued (snd (timerFired L t s)) = issued s"
  "issued (snd (bodySettled cfg L j c s)) = issued s"
  "issued (runFinally cfg L j out s) = issued s"
proof -
  show "issued (snd (cancel L h s)) = issued s"
    by (cases h) (simp_all add: cancel_unfold Let_def split: option.splits)
  show "issued (snd (timerFired L t s)) = issued s"
    by (cases "kind t")
       (simp_all add: timerFired_def queueTimeoutFired_def processingTimeoutFired_unfold Let_def
          split: option.splits)
  show "issued (snd (bodySettled cfg L j c s)) = issued s"
    by (cases c) (simp_all add: bodySettled_def Let_def split: option.splits)
  show "issued (runFinally cfg L j out s) = issued s"
    using processQueue_fields(3)[of cfg L "cleanup j s"]
    by (cases "processQueue cfg L (cleanup j s)") (auto simp: runFinally_def split: option.splits)
qed













lemma gone_prims [simp]:
  "gone i (notify L n s) = gone i s"
  "gone i (hooked j s) = gone i s"
  "gone i (s\<lparr>processing := b\<rparr>) = gone i s"
  "gone i (s\<lparr>issued := x\<rparr>) = gone i s"
  "gone i (s\<lparr>clock := c\<rparr>) = gone i s"
  "gone i (s\<lparr>reactions := rs\<rparr>) = gone i s"
  "gone i (s\<lparr>handle := h\<rparr>) = gone i s"
  by (simp_all add: gone_def queueIds_def)


























lemma step_nothing_starts:
  assumes "concurrency cfg = 0"
  shows "dispatchOrder (step cfg L e s) = dispatchOrder s"
proof (cases e)
  case (Add f hook)
  then show ?thesis
    by (cases "isFull cfg s")
       (simp_all add: add_full add_admits Let_def processQueue_starved[OF assms] orders_notify
          split: option.splits)
next
  case (Cancel i)
  then show ?thesis by (simp add: cancel_unfold orders_notify split: option.splits)
next
  case (TimerFire i)
  have "dispatchOrder (snd (timerFired L t s)) = dispatchOrder s" for t
    by (cases "kind t")
       (simp_all add: timerFired_def queueTimeoutFired_def processingTimeoutFired_unfold Let_def
          orders_notify split: option.splits)
  then show ?thesis using TimerFire by (simp split: option.splits)
next
  case (BodyDone i c)
  have "dispatchOrder (snd (bodySettled cfg L j c s0)) = dispatchOrder s0" for j s0
    by (cases c)
       (simp_all add: bodySettled_def Let_def processQueue_starved[OF assms] orders_notify
          split: option.splits)
  then show ?thesis using BodyDone by (simp split: option.splits)
next
  case Microtask
  then show ?thesis
    by (simp add: runFinally_def processQueue_starved[OF assms] split: list.splits)
next
  case (Tick n)
  then show ?thesis by simp
qed

lemma nothing_starts:
  assumes "concurrency cfg = 0"
  shows "dispatchOrder (exec cfg L evs Queue) = []"
proof (induction evs rule: rev_induct)
  case Nil
  then show ?case by (simp add: dispatchOrder_def Queue_def)
next
  case (snoc e evs)
  then show ?case using step_nothing_starts[OF assms] by (simp add: exec_snoc)
qed





lemma activeStarted_prims [simp]:
  "activeStarted (settle j out s) = activeStarted s"
  "activeStarted (removeTimeout i s) = activeStarted s"
  "activeStarted (hooked j s) = activeStarted s"
  "activeStarted (s\<lparr>processing := b\<rparr>) = activeStarted s"
  "activeStarted (s\<lparr>running := r\<rparr>) = activeStarted s"
  "activeStarted (s\<lparr>issued := x\<rparr>) = activeStarted s"
  "activeStarted (s\<lparr>timeouts := t\<rparr>) = activeStarted s"
  "activeStarted (s\<lparr>clock := c\<rparr>) = activeStarted s"
  "activeStarted (s\<lparr>reactions := rs\<rparr>) = activeStarted s"
  "activeStarted (s\<lparr>handle := h\<rparr>) = activeStarted s"
  by (simp_all add: activeStarted_def)








section \<open>The claims\<close>




text \<open>
  C2. The claim fails on the code, against the code's own test "cancel does nothing when
  unknown job done": \<open>cancel\<close> and \<open>job.cancel\<close> have no guard on settlement. On a
  default queue a job with a hook is added, its body fulfils with "one" and the finally
  callback runs: the handle is resolved, no hook was called and no \<open>job.cancel\<close> was
  emitted. Cancelling the handle now calls the hook and emits \<open>job.cancel\<close>, and
  cancelling it once more does both again. What the claim says of the outcome and of
  exceptions does hold: the handle stays resolved with "one" and neither call throws.
\<close>

theorem C2_cancel_after_settlement:
  "handle (exec defaultConfig noSubscribers
      [Add ReturnsPromise (Some HookReturns), BodyDone 0 (Fulfils ''one''), Microtask] Queue) 0
     = Some (Resolved ''one'') \<and>
   hookCalls (exec defaultConfig noSubscribers
      [Add ReturnsPromise (Some HookReturns), BodyDone 0 (Fulfils ''one''), Microtask] Queue) = [] \<and>
   job_cancel 0 0 \<notin> set (emitted (exec defaultConfig noSubscribers
      [Add ReturnsPromise (Some HookReturns), BodyDone 0 (Fulfils ''one''), Microtask] Queue)) \<and>
   fst (cancel noSubscribers (JobHandle (firstJob ReturnsPromise (Some HookReturns)))
     (exec defaultConfig noSubscribers
        [Add ReturnsPromise (Some HookReturns), BodyDone 0 (Fulfils ''one''), Microtask] Queue)) = None \<and>
   hookCalls (exec defaultConfig noSubscribers
      [Add ReturnsPromise (Some HookReturns), BodyDone 0 (Fulfils ''one''), Microtask, Cancel 0] Queue) = [0] \<and>
   filter (\<lambda>n. n = job_cancel 0 0) (emitted (exec defaultConfig noSubscribers
      [Add ReturnsPromise (Some HookReturns), BodyDone 0 (Fulfils ''one''), Microtask, Cancel 0] Queue))
     = [job_cancel 0 0] \<and>
   hookCalls (exec defaultConfig noSubscribers
      [Add ReturnsPromise (Some HookReturns), BodyDone 0 (Fulfils ''one''), Microtask, Cancel 0, Cancel 0] Queue)
     = [0, 0] \<and>
   filter (\<lambda>n. n = job_cancel 0 0) (emitted (exec defaultConfig noSubscribers
      [Add ReturnsPromise (Some HookReturns), BodyDone 0 (Fulfils ''one''), Microtask, Cancel 0, Cancel 0] Queue))
     = [job_cancel 0 0, job_cancel 0 0] \<and>
   handle (exec defaultConfig noSubscribers
      [Add ReturnsPromise (Some HookReturns), BodyDone 0 (Fulfils ''one''), Microtask, Cancel 0, Cancel 0] Queue) 0
     = Some (Resolved ''one'')"
  by code_simp


text \<open>
  C4, as amended. \<open>processQueue\<close> has no loop. Called where fewer than \<open>concurrency\<close>
  jobs are active, no pass is running and a job waits, it takes the head of
  \<open>waitingJobs\<close> and promotes that one job: the waiting queue loses exactly its head,
  one \<open>job.started\<close> goes out for it, and when the start succeeds (the subscribers of
  \<open>job.started\<close> return and the body returns its promise) the job is the new last entry
  of \<open>inProgressJobs\<close> with its execution timer armed and the flag released. Called
  while a pass is running, or where nothing can be dispatched, it changes nothing. The
  ids in the two containers are distinct in every state a queue reaches.
\<close>

theorem C4_dispatch_promotes_one:
  assumes "distinct (queueIds s)"
  shows "(processing s \<longrightarrow> processQueue cfg L s = (None, s)) \<and>
         (\<not> dispatchable cfg s \<longrightarrow> processQueue cfg L s = (None, s)) \<and>
         (dispatchable cfg s \<longrightarrow>
            waitingJobs (snd (processQueue cfg L s)) = tl (waitingJobs s) \<and>
            dispatchOrder (snd (processQueue cfg L s)) =
              dispatchOrder s @ [jobId (hd (waitingJobs s))] \<and>
            (inProgressJobs (snd (processQueue cfg L s)) = inProgressJobs s @ [hd (waitingJobs s)] \<or>
             inProgressJobs (snd (processQueue cfg L s)) = inProgressJobs s)) \<and>
         (dispatchable cfg s \<and> thrown L (startedOf (hd (waitingJobs s))) = None \<and>
          fn (hd (waitingJobs s)) = ReturnsPromise \<longrightarrow>
            fst (processQueue cfg L s) = None \<and>
            inProgressJobs (snd (processQueue cfg L s)) = inProgressJobs s @ [hd (waitingJobs s)] \<and>
            timeouts (snd (processQueue cfg L s)) (jobId (hd (waitingJobs s)))
              = Some (Timer Execution True (hd (waitingJobs s))) \<and>
            \<not> processing (snd (processQueue cfg L s)))"
proof -
  have "processing s \<longrightarrow> processQueue cfg L s = (None, s)"
    by (simp add: processQueue_busy)
  moreover have "\<not> dispatchable cfg s \<longrightarrow> processQueue cfg L s = (None, s)"
    by (simp add: processQueue_idle)
  moreover have "dispatchable cfg s \<longrightarrow>
      waitingJobs (snd (processQueue cfg L s)) = tl (waitingJobs s) \<and>
      dispatchOrder (snd (processQueue cfg L s)) = dispatchOrder s @ [jobId (hd (waitingJobs s))] \<and>
      (inProgressJobs (snd (processQueue cfg L s)) = inProgressJobs s @ [hd (waitingJobs s)] \<or>
       inProgressJobs (snd (processQueue cfg L s)) = inProgressJobs s)"
    using dispatch_one[OF _ assms, of cfg L] by (simp add: processQueue_orders)
  moreover have "dispatchable cfg s \<and> thrown L (startedOf (hd (waitingJobs s))) = None \<and>
      fn (hd (waitingJobs s)) = ReturnsPromise \<longrightarrow>
        fst (processQueue cfg L s) = None \<and>
        inProgressJobs (snd (processQueue cfg L s)) = inProgressJobs s @ [hd (waitingJobs s)] \<and>
        timeouts (snd (processQueue cfg L s)) (jobId (hd (waitingJobs s)))
          = Some (Timer Execution True (hd (waitingJobs s))) \<and>
        \<not> processing (snd (processQueue cfg L s))"
    by (simp add: dispatch_started)
  ultimately show ?thesis by blast
qed

theorem C4_dispatch_promotes_one_witness:
  "distinct (queueIds twoFree) \<and> dispatchable twoSlots twoFree \<and>
   thrown noSubscribers (startedOf (hd (waitingJobs twoFree))) = None \<and>
   fn (hd (waitingJobs twoFree)) = ReturnsPromise \<and>
   waitingJobs (snd (processQueue twoSlots noSubscribers twoFree)) = tl (waitingJobs twoFree) \<and>
   inProgressJobs (snd (processQueue twoSlots noSubscribers twoFree))
     = inProgressJobs twoFree @ [hd (waitingJobs twoFree)] \<and>
   \<not> processing (snd (processQueue twoSlots noSubscribers twoFree))"
proof -
  have d: "distinct (queueIds twoFree)" by code_simp
  have e: "dispatchable twoSlots twoFree" by code_simp
  have t: "thrown noSubscribers (startedOf (hd (waitingJobs twoFree))) = None"
    by (simp add: thrown_def noSubscribers_def)
  have f: "fn (hd (waitingJobs twoFree)) = ReturnsPromise" by code_simp
  show ?thesis
    using d e t f C4_dispatch_promotes_one[OF d, of twoSlots noSubscribers] by simp
qed

text \<open>
  The claim as stated fails: with two free slots and two jobs waiting, one call of
  \<open>processQueue\<close> starts the first waiting job only; a slot stays free and a job stays
  waiting until the dispatcher is called again.
\<close>

theorem C4_counterexample:
  "inProgressJobs twoFree = [] \<and> concurrency twoSlots = 2 \<and>
   map jobId (waitingJobs twoFree) = [2, 3] \<and> \<not> processing twoFree \<and>
   map jobId (inProgressJobs (snd (processQueue twoSlots noSubscribers twoFree))) = [2] \<and>
   map jobId (waitingJobs (snd (processQueue twoSlots noSubscribers twoFree))) = [3] \<and>
   \<not> (length (inProgressJobs (snd (processQueue twoSlots noSubscribers twoFree))) = concurrency twoSlots
      \<or> waitingJobs (snd (processQueue twoSlots noSubscribers twoFree)) = [])"
  by code_simp

text \<open>
  C5. Occupancy bounds. In every state a queue reaches from \<open>Queue\<close> by any sequence
  of events (submissions, cancellations, timers firing, bodies completing, finally
  callbacks, with any subscribers), the waiting and the active jobs together are at most
  \<open>maxTaskCount\<close> and the active jobs at most \<open>concurrency\<close>; \<open>stats\<close> reports the
  same two numbers.
\<close>

theorem C5_occupancy_bounds:
  "length (waitingJobs (exec cfg L evs Queue)) + length (inProgressJobs (exec cfg L evs Queue))
     \<le> maxTaskCount cfg \<and>
   length (inProgressJobs (exec cfg L evs Queue)) \<le> concurrency cfg \<and>
   jobsTotal (stats cfg (exec cfg L evs Queue)) \<le> maxTaskCount cfg \<and>
   jobsInProgress (stats cfg (exec cfg L evs Queue)) \<le> concurrency cfg"
proof -
  have "wfQueue cfg (exec cfg L evs Queue)"
    using exec_wf[of cfg Queue L evs] wf_Queue[of cfg] by simp
  then show ?thesis by (simp add: wfQueue_def stats_def)
qed

text \<open>
  C6, as amended. Admission rejection when full. When
  \<open>|waiting| + |active| \<ge> maxTaskCount\<close>, \<open>add\<close> emits \<open>queue.full\<close> with the two
  counts and creates no job: no id is consumed, nothing is pushed to \<open>waitingJobs\<close>, no
  timer is armed, no promise is made. When the subscribers of \<open>queue.full\<close> return,
  \<open>add\<close> returns a handle rejected with \<open>QueueFull\<close> carrying the same counts; when one
  of them throws, \<open>add\<close> throws that value and returns no handle. And when
  \<open>maxTaskCount\<close> jobs have been added to a new queue and none of them has settled,
  \<open>stats\<close> counts \<open>maxTaskCount\<close> jobs, the queue is full, the next \<open>add\<close> does as
  said, with counts that add up to \<open>maxTaskCount\<close>, and \<open>stats\<close> still counts
  \<open>maxTaskCount\<close> jobs.
\<close>

theorem C6_rejects_when_full:
  "(isFull cfg s \<longrightarrow>
      add cfg L f hook s =
        (case thrown L (queue_full (length (waitingJobs s)) (length (inProgressJobs s))) of
           None \<Rightarrow> Returned (RejectedHandle (length (waitingJobs s)) (length (inProgressJobs s)))
         | Some v \<Rightarrow> Threw v,
         notify L (queue_full (length (waitingJobs s)) (length (inProgressJobs s))) s) \<and>
      outcomeOf (snd (add cfg L f hook s))
          (RejectedHandle (length (waitingJobs s)) (length (inProgressJobs s)))
        = Some (Rejected (QueueFull (length (waitingJobs s)) (length (inProgressJobs s)))) \<and>
      emitted (snd (add cfg L f hook s))
        = emitted s @ [queue_full (length (waitingJobs s)) (length (inProgressJobs s))] \<and>
      lastId (snd (add cfg L f hook s)) = lastId s \<and>
      waitingJobs (snd (add cfg L f hook s)) = waitingJobs s \<and>
      inProgressJobs (snd (add cfg L f hook s)) = inProgressJobs s \<and>
      timeouts (snd (add cfg L f hook s)) = timeouts s \<and>
      promise (snd (add cfg L f hook s)) = promise s) \<and>
   ((\<forall>e \<in> set evs. isAdd e) \<and> length evs = maxTaskCount cfg \<and>
    (\<forall>i < lastId (exec cfg L evs Queue). promise (exec cfg L evs Queue) i = None) \<longrightarrow>
      jobsTotal (stats cfg (exec cfg L evs Queue)) = maxTaskCount cfg \<and>
      isFull cfg (exec cfg L evs Queue) \<and>
      fst (add cfg L f hook (exec cfg L evs Queue)) =
        (case thrown L (queue_full (length (waitingJobs (exec cfg L evs Queue)))
                                   (length (inProgressJobs (exec cfg L evs Queue)))) of
           None \<Rightarrow> Returned (RejectedHandle (length (waitingJobs (exec cfg L evs Queue)))
                                            (length (inProgressJobs (exec cfg L evs Queue))))
         | Some v \<Rightarrow> Threw v) \<and>
      length (waitingJobs (exec cfg L evs Queue)) + length (inProgressJobs (exec cfg L evs Queue))
        = maxTaskCount cfg \<and>
      jobsTotal (stats cfg (snd (add cfg L f hook (exec cfg L evs Queue)))) = maxTaskCount cfg)"
proof (intro conjI impI)
  assume full: "isFull cfg s"
  show "add cfg L f hook s =
      (case thrown L (queue_full (length (waitingJobs s)) (length (inProgressJobs s))) of
         None \<Rightarrow> Returned (RejectedHandle (length (waitingJobs s)) (length (inProgressJobs s)))
       | Some v \<Rightarrow> Threw v,
       notify L (queue_full (length (waitingJobs s)) (length (inProgressJobs s))) s)"
    using full by (simp add: add_full split: option.splits)
  then show "outcomeOf (snd (add cfg L f hook s))
        (RejectedHandle (length (waitingJobs s)) (length (inProgressJobs s)))
      = Some (Rejected (QueueFull (length (waitingJobs s)) (length (inProgressJobs s))))"
    "emitted (snd (add cfg L f hook s))
      = emitted s @ [queue_full (length (waitingJobs s)) (length (inProgressJobs s))]"
    "lastId (snd (add cfg L f hook s)) = lastId s"
    "waitingJobs (snd (add cfg L f hook s)) = waitingJobs s"
    "inProgressJobs (snd (add cfg L f hook s)) = inProgressJobs s"
    "timeouts (snd (add cfg L f hook s)) = timeouts s"
    "promise (snd (add cfg L f hook s)) = promise s"
    by (simp_all add: outcomeOf_def)
next
  let ?s = "exec cfg L evs Queue"
  assume a: "(\<forall>e \<in> set evs. isAdd e) \<and> length evs = maxTaskCount cfg \<and>
      (\<forall>i < lastId ?s. promise ?s i = None)"
  have n: "length (waitingJobs ?s) + length (inProgressJobs ?s) = maxTaskCount cfg"
    using adds_unsettled[of evs cfg L] a by simp
  then show full: "isFull cfg ?s" by (simp add: isFull_def)
  show "length (waitingJobs ?s) + length (inProgressJobs ?s) = maxTaskCount cfg" by (rule n)
  show "jobsTotal (stats cfg ?s) = maxTaskCount cfg" using n by (simp add: stats_def)
  show "fst (add cfg L f hook ?s) =
      (case thrown L (queue_full (length (waitingJobs ?s)) (length (inProgressJobs ?s))) of
         None \<Rightarrow> Returned (RejectedHandle (length (waitingJobs ?s)) (length (inProgressJobs ?s)))
       | Some v \<Rightarrow> Threw v)"
    using full by (simp add: add_full split: option.splits)
  show "jobsTotal (stats cfg (snd (add cfg L f hook ?s))) = maxTaskCount cfg"
    using full n by (simp add: add_full stats_def)
qed

theorem C6_rejects_when_full_witness:
  "isFull defaultConfig (exec defaultConfig noSubscribers [Add ReturnsPromise None] Queue) \<and>
   isAdd (Add ReturnsPromise None) \<and>
   length [Add ReturnsPromise None] = maxTaskCount defaultConfig \<and>
   promise (exec defaultConfig noSubscribers [Add ReturnsPromise None] Queue) 0 = None \<and>
   lastId (exec defaultConfig noSubscribers [Add ReturnsPromise None] Queue) = 1 \<and>
   fst (add defaultConfig noSubscribers ReturnsPromise None
          (exec defaultConfig noSubscribers [Add ReturnsPromise None] Queue))
     = Returned (RejectedHandle 0 1) \<and>
   lastId (snd (add defaultConfig noSubscribers ReturnsPromise None
          (exec defaultConfig noSubscribers [Add ReturnsPromise None] Queue))) = 1 \<and>
   jobsTotal (stats defaultConfig (snd (add defaultConfig noSubscribers ReturnsPromise None
          (exec defaultConfig noSubscribers [Add ReturnsPromise None] Queue)))) = 1"
proof -
  let ?s = "exec defaultConfig noSubscribers [Add ReturnsPromise None] Queue"
  have f: "isFull defaultConfig ?s" by code_simp
  have l: "lastId ?s = 1" by code_simp
  have p: "promise ?s 0 = None" by code_simp
  have u: "\<forall>i < lastId ?s. promise ?s i = None" using l p by simp
  have w: "length (waitingJobs ?s) = 0" "length (inProgressJobs ?s) = 1" by code_simp+
  have t: "thrown noSubscribers (queue_full 0 1) = None" by (simp add: thrown_def noSubscribers_def)
  have m: "length [Add ReturnsPromise None] = maxTaskCount defaultConfig"
    by (simp add: defaultConfig_def)
  have a: "\<forall>e \<in> set [Add ReturnsPromise None]. isAdd e" by simp
  note c = C6_rejects_when_full[of defaultConfig ?s noSubscribers ReturnsPromise None
      "[Add ReturnsPromise None]"]
  have "add defaultConfig noSubscribers ReturnsPromise None ?s =
      (case thrown noSubscribers (queue_full (length (waitingJobs ?s)) (length (inProgressJobs ?s))) of
         None \<Rightarrow> Returned (RejectedHandle (length (waitingJobs ?s)) (length (inProgressJobs ?s)))
       | Some v \<Rightarrow> Threw v,
       notify noSubscribers (queue_full (length (waitingJobs ?s)) (length (inProgressJobs ?s))) ?s)"
    using c f by blast
  then have r: "fst (add defaultConfig noSubscribers ReturnsPromise None ?s)
      = Returned (RejectedHandle 0 1)"
    using w t by simp
  have "lastId (snd (add defaultConfig noSubscribers ReturnsPromise None ?s)) = lastId ?s"
    using c f by blast
  then have k: "lastId (snd (add defaultConfig noSubscribers ReturnsPromise None ?s)) = 1"
    using l by simp
  have "jobsTotal (stats defaultConfig
      (snd (add defaultConfig noSubscribers ReturnsPromise None ?s))) = maxTaskCount defaultConfig"
    using c a m u by blast
  then have j: "jobsTotal (stats defaultConfig
      (snd (add defaultConfig noSubscribers ReturnsPromise None ?s))) = 1"
    by (simp add: defaultConfig_def)
  have a': "isAdd (Add ReturnsPromise None)" by simp
  show ?thesis using f a' m p l r k j by blast
qed

text \<open>
  The claim as stated fails: it has \<open>add\<close> return a rejected handle whenever the queue
  is full. On a full default queue with a subscriber of \<open>queue.full\<close> that throws,
  \<open>add\<close> throws the subscriber's value to its caller and returns no handle at all.
\<close>

theorem C6_counterexample:
  "isFull defaultConfig (exec defaultConfig fullThrows [Add ReturnsPromise None] Queue) \<and>
   fst (add defaultConfig fullThrows ReturnsPromise None
          (exec defaultConfig fullThrows [Add ReturnsPromise None] Queue)) = Threw ''boom'' \<and>
   (\<forall>h. fst (add defaultConfig fullThrows ReturnsPromise None
          (exec defaultConfig fullThrows [Add ReturnsPromise None] Queue)) \<noteq> Returned h)"
proof -
  have f: "isFull defaultConfig (exec defaultConfig fullThrows [Add ReturnsPromise None] Queue)"
    by code_simp
  have t: "fst (add defaultConfig fullThrows ReturnsPromise None
          (exec defaultConfig fullThrows [Add ReturnsPromise None] Queue)) = Threw ''boom''"
    by code_simp
  show ?thesis using f t by simp
qed






text \<open>
  C9, as amended. Zero concurrency. On a queue built with \<open>concurrency = 0\<close>, in every
  state reached by any sequence of events and with any subscribers, no job is active and
  no \<open>job.started\<close> was ever emitted. When the subscribers return normally, every
  admitted job whose promise is still pending sits in \<open>waitingJobs\<close> with its queue-wait
  timer armed; when that timer fires the promise is rejected with \<open>QueueTimeout\<close>
  carrying the time the job was added, and once the finally callbacks have run the
  handle is rejected with the same error. The timer is not the only way out of the
  waiting queue: the caller's \<open>cancel\<close> is the other, and a settled handle carries
  \<open>QueueTimeout\<close>, or \<open>JobCancelled\<close> when the caller cancelled that job.
\<close>

theorem C9_zero_concurrency_starves:
  assumes "concurrency cfg = 0"
  shows "inProgressJobs (exec cfg L evs Queue) = [] \<and>
         dispatchOrder (exec cfg L evs Queue) = [] \<and>
         (quiet L \<and> i < lastId (exec cfg L evs Queue) \<and> promise (exec cfg L evs Queue) i = None \<longrightarrow>
            i \<in> jobId ` set (waitingJobs (exec cfg L evs Queue)) \<and>
            (\<exists>t. timeouts (exec cfg L evs Queue) i = Some t \<and> armed t \<and> kind t = QueueWait \<and>
                 issued (exec cfg L evs Queue) i = Some (target t) \<and>
                 promise (step cfg L (TimerFire i) (exec cfg L evs Queue)) i
                   = Some (Rejected (QueueTimeout (addedToTheQueueAt (target t)))) \<and>
                 handle (exec cfg L
                   (evs @ TimerFire i #
                      replicate (Suc (length (reactions (exec cfg L evs Queue)))) Microtask) Queue) i
                   = Some (Rejected (QueueTimeout (addedToTheQueueAt (target t)))))) \<and>
         (quiet L \<and> handle (exec cfg L evs Queue) i = Some out \<longrightarrow>
            (\<exists>j. issued (exec cfg L evs Queue) i = Some j \<and>
                 out = Rejected (QueueTimeout (addedToTheQueueAt j))) \<or>
            out = Rejected JobCancelled \<and> Cancel i \<in> set evs)"
proof -
  let ?s = "exec cfg L evs Queue"
  have i: "inv cfg ?s" by (rule reachable_inv)
  then have "length (inProgressJobs ?s) \<le> concurrency cfg" by (simp add: inv_def wfQueue_def)
  then have 1: "inProgressJobs ?s = []" using assms by simp
  have 2: "dispatchOrder ?s = []" by (rule nothing_starts[OF assms])
  have 3: "quiet L \<and> i < lastId ?s \<and> promise ?s i = None \<longrightarrow>
      i \<in> jobId ` set (waitingJobs ?s) \<and>
      (\<exists>t. timeouts ?s i = Some t \<and> armed t \<and> kind t = QueueWait \<and>
           issued ?s i = Some (target t) \<and>
           promise (step cfg L (TimerFire i) ?s) i
             = Some (Rejected (QueueTimeout (addedToTheQueueAt (target t)))) \<and>
           handle (exec cfg L
             (evs @ TimerFire i # replicate (Suc (length (reactions ?s))) Microtask) Queue) i
             = Some (Rejected (QueueTimeout (addedToTheQueueAt (target t)))))"
  proof (intro impI, elim conjE)
    assume q: "quiet L" and l: "i < lastId ?s" and p: "promise ?s i = None"
    have s: "starved ?s" by (rule reachable_starved[OF assms q])
    have a: "armedAll ?s" by (rule starved_armedAll[OF assms q])
    have w: "i \<in> jobId ` set (waitingJobs ?s)"
      using s l p by (auto simp: starved_def waitingIds_def)
    obtain t where t: "timeouts ?s i = Some t" "armed t"
      using a l p by (auto simp: armedAll_def)
    have k: "kind t = QueueWait" "issued ?s i = Some (target t)"
      using s t(1) by (auto simp: starved_def)
    have j: "jobId (target t) = i" using i t(1) by (auto simp: inv_def wfReg_def)
    have f: "promise (step cfg L (TimerFire i) ?s) i
        = Some (Rejected (QueueTimeout (addedToTheQueueAt (target t))))"
      by (rule queue_timer_fires[OF q t k(1) j p])
    have h: "handle (exec cfg L
        (evs @ TimerFire i # replicate (Suc (length (reactions ?s))) Microtask) Queue) i
        = Some (Rejected (QueueTimeout (addedToTheQueueAt (target t))))"
      by (rule handle_follows[OF q f])
    show "i \<in> jobId ` set (waitingJobs ?s) \<and>
      (\<exists>t. timeouts ?s i = Some t \<and> armed t \<and> kind t = QueueWait \<and>
           issued ?s i = Some (target t) \<and>
           promise (step cfg L (TimerFire i) ?s) i
             = Some (Rejected (QueueTimeout (addedToTheQueueAt (target t)))) \<and>
           handle (exec cfg L
             (evs @ TimerFire i # replicate (Suc (length (reactions ?s))) Microtask) Queue) i
             = Some (Rejected (QueueTimeout (addedToTheQueueAt (target t)))))"
      using w t k f h by blast
  qed
  have 4: "quiet L \<and> handle ?s i = Some out \<longrightarrow>
      (\<exists>j. issued ?s i = Some j \<and> out = Rejected (QueueTimeout (addedToTheQueueAt j))) \<or>
      out = Rejected JobCancelled \<and> Cancel i \<in> set evs"
  proof (intro impI, elim conjE)
    assume q: "quiet L" and h: "handle ?s i = Some out"
    have s: "starved ?s" by (rule reachable_starved[OF assms q])
    have p: "promise ?s i = Some out"
      using reachable_qinv[OF q, of cfg evs] h by (simp add: qinv_def passedOn_def)
    then have "out = Rejected JobCancelled \<or>
        (\<exists>j. issued ?s i = Some j \<and> out = Rejected (QueueTimeout (addedToTheQueueAt j)))"
      using s by (simp add: starved_def)
    then show "(\<exists>j. issued ?s i = Some j \<and> out = Rejected (QueueTimeout (addedToTheQueueAt j))) \<or>
        out = Rejected JobCancelled \<and> Cancel i \<in> set evs"
      using p cancelled_by_caller[of cfg L evs i] by blast
  qed
  show ?thesis using 1 2 3 4 by blast
qed

theorem C9_zero_concurrency_starves_witness:
  "concurrency noDispatch = 0 \<and> quiet noSubscribers \<and>
   0 < lastId (exec noDispatch noSubscribers [Add ReturnsPromise None, Tick 10] Queue) \<and>
   promise (exec noDispatch noSubscribers [Add ReturnsPromise None, Tick 10] Queue) 0 = None \<and>
   inProgressJobs (exec noDispatch noSubscribers [Add ReturnsPromise None, Tick 10] Queue) = [] \<and>
   0 \<in> jobId ` set (waitingJobs (exec noDispatch noSubscribers [Add ReturnsPromise None, Tick 10] Queue)) \<and>
   handle (exec noDispatch noSubscribers
     [Add ReturnsPromise None, Tick 10, TimerFire 0, Microtask] Queue) 0
     = Some (Rejected (QueueTimeout 0)) \<and>
   issued (exec noDispatch noSubscribers
     [Add ReturnsPromise None, Tick 10, TimerFire 0, Microtask] Queue) 0
     = Some (firstJob ReturnsPromise None)"
proof -
  let ?evs = "[Add ReturnsPromise None, Tick 10]"
  let ?evs' = "[Add ReturnsPromise None, Tick 10, TimerFire 0, Microtask]"
  have c: "concurrency noDispatch = 0" by (simp add: noDispatch_def)
  have q: "quiet noSubscribers" by simp
  have l: "0 < lastId (exec noDispatch noSubscribers ?evs Queue)" by code_simp
  have p: "promise (exec noDispatch noSubscribers ?evs Queue) 0 = None" by code_simp
  have h: "handle (exec noDispatch noSubscribers ?evs' Queue) 0 = Some (Rejected (QueueTimeout 0))"
    by code_simp
  have j: "issued (exec noDispatch noSubscribers ?evs' Queue) 0 = Some (firstJob ReturnsPromise None)"
    by code_simp
  have a: "inProgressJobs (exec noDispatch noSubscribers ?evs Queue) = [] \<and>
      0 \<in> jobId ` set (waitingJobs (exec noDispatch noSubscribers ?evs Queue))"
    using C9_zero_concurrency_starves[OF c, where L = noSubscribers and evs = ?evs and i = 0]
      q l p by blast
  show ?thesis using c q l p a h j by blast
qed

text \<open>
  The claim as stated fails in two ways. A waiting job leaves the waiting queue without
  its timer firing when its handle is cancelled, and settles with \<open>JobCancelled\<close>. And
  with a subscriber of \<open>queue.timeout\<close> that throws, the timer fires and the job does
  not settle: the callback stops at \<open>emit\<close>, the promise stays pending, the job stays in
  \<open>waitingJobs\<close> with a timer that has fired, and the queue stays full.
\<close>

theorem C9_counterexample:
  "concurrency noDispatch = 0 \<and>
   waitingJobs (exec noDispatch noSubscribers [Add ReturnsPromise None, Cancel 0] Queue) = [] \<and>
   promise (exec noDispatch noSubscribers [Add ReturnsPromise None, Cancel 0] Queue) 0
     = Some (Rejected JobCancelled) \<and>
   emitted (exec noDispatch noSubscribers [Add ReturnsPromise None, Cancel 0] Queue)
     = [queue_new 0 0 1, job_cancel 0 0] \<and>
   promise (exec noDispatch timeoutThrows [Add ReturnsPromise None, TimerFire 0, Microtask] Queue) 0
     = None \<and>
   map jobId (waitingJobs (exec noDispatch timeoutThrows
      [Add ReturnsPromise None, TimerFire 0, Microtask] Queue)) = [0] \<and>
   timeouts (exec noDispatch timeoutThrows [Add ReturnsPromise None, TimerFire 0, Microtask] Queue) 0
     = Some (Timer QueueWait False (firstJob ReturnsPromise None)) \<and>
   emitted (exec noDispatch timeoutThrows [Add ReturnsPromise None, TimerFire 0, Microtask] Queue)
     = [queue_new 0 0 1, queue_timeout 0 0] \<and>
   isFull noDispatch (exec noDispatch timeoutThrows
      [Add ReturnsPromise None, TimerFire 0, Microtask] Queue)"
  by code_simp

text \<open>
  C10. The handle \<open>add\<close> returns when the queue is full has the empty function as its
  \<open>cancel\<close>: calling it, in whatever state the queue is by then, returns normally and
  leaves the whole state as it was (no hook called, nothing emitted, no container or
  timer touched).
\<close>

theorem C10_cancel_of_rejected_handle:
  assumes "isFull cfg s" "fst (add cfg L f hook s) = Returned h"
  shows "cancel L h s' = (None, s') \<and>
         outcomeOf s' h = Some (Rejected (QueueFull (length (waitingJobs s)) (length (inProgressJobs s))))"
  using assms by (auto simp: add_full cancel_def outcomeOf_def split: option.splits)

theorem C10_cancel_of_rejected_handle_witness:
  "isFull defaultConfig (exec defaultConfig noSubscribers [Add ReturnsPromise (Some HookReturns)] Queue) \<and>
   fst (add defaultConfig noSubscribers ReturnsPromise (Some HookReturns)
         (exec defaultConfig noSubscribers [Add ReturnsPromise (Some HookReturns)] Queue))
     = Returned (RejectedHandle 0 1) \<and>
   cancel noSubscribers (RejectedHandle 0 1)
     (exec defaultConfig noSubscribers [Add ReturnsPromise (Some HookReturns), Add ReturnsPromise (Some HookReturns), Tick 3] Queue)
     = (None, exec defaultConfig noSubscribers
         [Add ReturnsPromise (Some HookReturns), Add ReturnsPromise (Some HookReturns), Tick 3] Queue)"
proof -
  have a: "isFull defaultConfig (exec defaultConfig noSubscribers [Add ReturnsPromise (Some HookReturns)] Queue)"
    by code_simp
  have b: "fst (add defaultConfig noSubscribers ReturnsPromise (Some HookReturns)
         (exec defaultConfig noSubscribers [Add ReturnsPromise (Some HookReturns)] Queue))
     = Returned (RejectedHandle 0 1)"
    by code_simp
  show ?thesis
    using a b C10_cancel_of_rejected_handle[OF a b,
      of "exec defaultConfig noSubscribers [Add ReturnsPromise (Some HookReturns), Add ReturnsPromise (Some HookReturns), Tick 3] Queue"]
    by simp
qed

end
